theory Spec2Isabelle
  imports Complex_Main
begin

section \<open>Strings\<close>

text \<open>
  A JavaScript string is modelled as the list of its code units; the alphabet of the
  model is the code units below 256. The character classes are those of the regular
  expressions of \<^verbatim>\<open>App.tsx\<close>: \<^verbatim>\<open>[a-z]\<close>, \<^verbatim>\<open>[A-Z]\<close>,
  \<^verbatim>\<open>[a-zA-Z0-9]\<close> are ranges of code units.
\<close>

definition isLower :: "char \<Rightarrow> bool" where
  "isLower c = (97 \<le> (of_char c :: nat) \<and> (of_char c :: nat) \<le> 122)"

definition isUpper :: "char \<Rightarrow> bool" where
  "isUpper c = (65 \<le> (of_char c :: nat) \<and> (of_char c :: nat) \<le> 90)"

definition isDigit :: "char \<Rightarrow> bool" where
  "isDigit c = (48 \<le> (of_char c :: nat) \<and> (of_char c :: nat) \<le> 57)"

definition isLetter :: "char \<Rightarrow> bool" where
  "isLetter c = (isLower c \<or> isUpper c)"

definition isAlnum :: "char \<Rightarrow> bool" where
  "isAlnum c = (isLower c \<or> isUpper c \<or> isDigit c)"

text \<open>Case folding of the \<^verbatim>\<open>i\<close> flag: among the code units below 256 only the
  ASCII letters have a case partner that is an ASCII letter.\<close>

definition toLowerCase :: "char \<Rightarrow> char" where
  "toLowerCase c = (if isUpper c then char_of ((of_char c :: nat) + 32) else c)"

text \<open>The white space that \<^verbatim>\<open>String.prototype.trim\<close> removes, below 256: TAB, LF, VT,
  FF, CR, SPACE and NBSP.\<close>

definition isWhiteSpace :: "char \<Rightarrow> bool" where
  "isWhiteSpace c = ((9 \<le> (of_char c :: nat) \<and> (of_char c :: nat) \<le> 13)
     \<or> (of_char c :: nat) = 32 \<or> (of_char c :: nat) = 160)"

definition trim :: "string \<Rightarrow> string" where
  "trim s = rev (dropWhile isWhiteSpace (rev (dropWhile isWhiteSpace s)))"

definition startsWith :: "string \<Rightarrow> string \<Rightarrow> bool" where
  "startsWith s p = (take (length p) s = p)"

text \<open>\<^verbatim>\<open>findSub p s\<close> is the leftmost occurrence of the literal \<open>p\<close> in \<open>s\<close>: the text
  before it and the text after it.\<close>

fun findSub :: "string \<Rightarrow> string \<Rightarrow> (string \<times> string) option" where
  "findSub p [] = (if p = [] then Some ([], []) else None)"
| "findSub p (c # cs) =
     (if startsWith (c # cs) p then Some ([], drop (length p) (c # cs))
      else (case findSub p cs of
              None \<Rightarrow> None
            | Some (before, after) \<Rightarrow> Some (c # before, after)))"

text \<open>\<^verbatim>\<open>s.replace(p, '')\<close> with a string pattern: the first occurrence is removed.\<close>

definition removeFirst :: "string \<Rightarrow> string \<Rightarrow> string" where
  "removeFirst p s = (case findSub p s of None \<Rightarrow> s | Some (before, after) \<Rightarrow> before @ after)"

text \<open>\<^verbatim>\<open>s.replace(/p/g, '')\<close> for a literal \<open>p\<close>: one scan from the left, every match
  removed, the scan going on behind the match.\<close>

function removeAll :: "string \<Rightarrow> string \<Rightarrow> string" where
  "removeAll p [] = []"
| "removeAll p (c # cs) =
     (if p \<noteq> [] \<and> startsWith (c # cs) p then removeAll p (drop (length p) (c # cs))
      else c # removeAll p cs)"
  by pat_completeness auto
termination
  by (relation "measure (\<lambda>(p, s). length s)") auto

section \<open>The word-merge repair (\<^verbatim>\<open>addSpaceBetweenWords\<close>)\<close>

text \<open>\<^verbatim>\<open>text.replace(/([a-z])([A-Z])/g, '$1 $2')\<close>\<close>

fun camelPass :: "string \<Rightarrow> string" where
  "camelPass (a # b # r) =
     (if isLower a \<and> isUpper b then a # CHR '' '' # b # camelPass r
      else a # camelPass (b # r))"
| "camelPass s = s"

text \<open>\<^verbatim>\<open>result.replace(/([a-z])(I)([a-z])/g, '$1 $2 $3')\<close>\<close>

fun pronounPass :: "string \<Rightarrow> string" where
  "pronounPass (a # b # c # r) =
     (if isLower a \<and> b = CHR ''I'' \<and> isLower c
      then a # CHR '' '' # b # CHR '' '' # c # pronounPass r
      else a # pronounPass (b # c # r))"
| "pronounPass s = s"

text \<open>\<^verbatim>\<open>result.replace(/([a-z])(will|can|should|would|may|might)([a-z])/gi, '$1 $2 $3')\<close>:
  \<open>matchWord\<close> tries the alternatives in their order behind the first letter and gives
  the length of the first one that is followed by a letter.\<close>

definition modalWords :: "string list" where
  "modalWords = [''will'', ''can'', ''should'', ''would'', ''may'', ''might'']"

fun matchWord :: "string list \<Rightarrow> string \<Rightarrow> nat option" where
  "matchWord [] s = None"
| "matchWord (w # ws) s =
     (if map toLowerCase (take (length w) s) = w \<and> length w < length s
         \<and> isLetter (s ! length w)
      then Some (length w) else matchWord ws s)"

fun modalPass :: "string \<Rightarrow> string" where
  "modalPass [] = []"
| "modalPass (a # s) =
     (if isLetter a then
        (case matchWord modalWords s of
           Some n \<Rightarrow> a # CHR '' '' # take n s @ CHR '' '' # s ! n # modalPass (drop (Suc n) s)
         | None \<Rightarrow> a # modalPass s)
      else a # modalPass s)"

definition addSpaceBetweenWords :: "string \<Rightarrow> string" where
  "addSpaceBetweenWords text = modalPass (pronounPass (camelPass text))"

section \<open>Decoded JSON values\<close>

text \<open>
  What \<^verbatim>\<open>JSON.parse\<close> returns. A number is a real (the finite doubles are reals, and
  only their equality and their being zero are used). An object is the list of its
  members in the order of the text; where a key is repeated the last member counts.
  \<open>None\<close> of type \<open>json option\<close> is JavaScript's \<^verbatim>\<open>undefined\<close>.
\<close>

datatype json =
    JNull
  | JBool bool
  | JNumber real
  | JString string
  | JArray "json list"
  | JObject "(string \<times> json) list"

text \<open>Property access \<^verbatim>\<open>v.k\<close> on a value other than \<^verbatim>\<open>null\<close>, for the keys this
  program reads (none of them is a property of a prototype).\<close>

fun getProp :: "json \<Rightarrow> string \<Rightarrow> json option" where
  "getProp (JObject kvs) k = map_of (rev kvs) k"
| "getProp _ k = None"

fun truthyValue :: "json \<Rightarrow> bool" where
  "truthyValue JNull = False"
| "truthyValue (JBool b) = b"
| "truthyValue (JNumber n) = (n \<noteq> 0)"
| "truthyValue (JString s) = (s \<noteq> [])"
| "truthyValue (JArray xs) = True"
| "truthyValue (JObject kvs) = True"

fun isPrimitive :: "json \<Rightarrow> bool" where
  "isPrimitive (JArray xs) = False"
| "isPrimitive (JObject kvs) = False"
| "isPrimitive _ = True"

text \<open>The set \<^verbatim>\<open>processedIds\<close>, in insertion order. \<^verbatim>\<open>Set.has\<close> compares primitive
  values by value and objects by identity; an object that \<^verbatim>\<open>JSON.parse\<close> has just
  built is identical to no earlier one.\<close>

definition setHas :: "json list \<Rightarrow> json \<Rightarrow> bool" where
  "setHas ids v = (isPrimitive v \<and> v \<in> set ids)"

definition setAdd :: "json list \<Rightarrow> json \<Rightarrow> json list" where
  "setAdd ids v = (if setHas ids v then ids else ids @ [v])"

section \<open>The data model (\<^verbatim>\<open>api.ts\<close>, \<^verbatim>\<open>App.tsx\<close>)\<close>

text \<open>The interface \<^verbatim>\<open>ExecutedTool\<close>; its member \<^verbatim>\<open>output\<close> is the field \<open>toolOutput\<close>.\<close>

record ExecutedTool =
  index :: real
  type :: string
  arguments :: "string option"
  search_results :: "json option"
  toolOutput :: "string option"

record StreamChunk =
  reasoning :: "string option"
  executed_tools :: "ExecutedTool list option"
  content :: "string option"

datatype MessageBlock =
    Reasoning string
  | Tool ExecutedTool
  | Content string

text \<open>A call that \<^verbatim>\<open>askQuestionStream\<close> makes to its caller.\<close>

datatype callback = OnChunk StreamChunk | OnComplete

text \<open>An element of \<^verbatim>\<open>delta.executed_tools\<close> read at its declared interface
  \<^verbatim>\<open>ExecutedTool\<close> (the code assigns the array without a conversion; a member
  that has not its declared type is outside the interface: it is read as absent,
  an index as 0 and a type as the empty string).\<close>

definition stringProp :: "json \<Rightarrow> string \<Rightarrow> string option" where
  "stringProp j k = (case getProp j k of Some (JString s) \<Rightarrow> Some s | _ \<Rightarrow> None)"

definition asExecutedTool :: "json \<Rightarrow> ExecutedTool" where
  "asExecutedTool j =
     \<lparr>index = (case getProp j ''index'' of Some (JNumber n) \<Rightarrow> n | _ \<Rightarrow> 0),
      type = (case stringProp j ''type'' of Some s \<Rightarrow> s | None \<Rightarrow> []),
      arguments = stringProp j ''arguments'',
      search_results = getProp j ''search_results'',
      toolOutput = stringProp j ''output''\<rparr>"

section \<open>The frame decoder (\<^verbatim>\<open>processLine\<close>)\<close>

text \<open>\<^verbatim>\<open>json.choices && Array.isArray(json.choices) && json.choices[0] && json.choices[0].delta\<close>\<close>

definition deltaOf :: "json \<Rightarrow> json option" where
  "deltaOf j =
     (case getProp j ''choices'' of
        Some (JArray (c # cs)) \<Rightarrow>
          (if truthyValue c then
             (case getProp c ''delta'' of
                Some d \<Rightarrow> (if truthyValue d then Some d else None)
              | None \<Rightarrow> None)
           else None)
      | _ \<Rightarrow> None)"

text \<open>A channel is taken over only when it has its type and is not empty.\<close>

definition nonEmptyString :: "json option \<Rightarrow> string option" where
  "nonEmptyString v = (case v of Some (JString s) \<Rightarrow> (if s = [] then None else Some s) | _ \<Rightarrow> None)"

definition nonEmptyTools :: "json option \<Rightarrow> ExecutedTool list option" where
  "nonEmptyTools v =
     (case v of Some (JArray ts) \<Rightarrow> (if ts = [] then None else Some (map asExecutedTool ts))
      | _ \<Rightarrow> None)"

definition chunkOfDelta :: "json \<Rightarrow> StreamChunk" where
  "chunkOfDelta delta =
     \<lparr>reasoning = nonEmptyString (getProp delta ''reasoning''),
      executed_tools = nonEmptyTools (getProp delta ''executed_tools''),
      content = nonEmptyString (getProp delta ''content'')\<rparr>"

text \<open>\<^verbatim>\<open>chunk.reasoning || (chunk.executed_tools && chunk.executed_tools.length > 0) || chunk.content\<close>\<close>

definition hasText :: "string option \<Rightarrow> bool" where
  "hasText v = (case v of Some s \<Rightarrow> s \<noteq> [] | None \<Rightarrow> False)"

definition hasTools :: "ExecutedTool list option \<Rightarrow> bool" where
  "hasTools v = (case v of Some ts \<Rightarrow> ts \<noteq> [] | None \<Rightarrow> False)"

definition hasData :: "StreamChunk \<Rightarrow> bool" where
  "hasData chunk =
     (hasText (reasoning chunk) \<or> hasTools (executed_tools chunk) \<or> hasText (content chunk))"

text \<open>\<^verbatim>\<open>chunkId && processedIds.has(chunkId)\<close> and \<^verbatim>\<open>if (chunkId) processedIds.add(chunkId)\<close>\<close>

definition idSeen :: "json list \<Rightarrow> json option \<Rightarrow> bool" where
  "idSeen ids chunkId = (case chunkId of Some v \<Rightarrow> truthyValue v \<and> setHas ids v | None \<Rightarrow> False)"

definition recordId :: "json list \<Rightarrow> json option \<Rightarrow> json list" where
  "recordId ids chunkId =
     (case chunkId of Some v \<Rightarrow> (if truthyValue v then setAdd ids v else ids) | None \<Rightarrow> ids)"

text \<open>
  \<^verbatim>\<open>processLine(line, onChunk, onComplete, processedIds)\<close>. The result is the value it
  returns, the callbacks it has called, and the set of processed ids behind the call.
  \<open>parse\<close> is \<^verbatim>\<open>JSON.parse\<close>, with \<open>None\<close> where it throws. Every exception of the
  \<^verbatim>\<open>try\<close> block ends in its \<^verbatim>\<open>catch\<close>, which returns \<^verbatim>\<open>false\<close> (and may write a
  warning to the console): a text that does not parse, and \<^verbatim>\<open>json.id\<close> on \<^verbatim>\<open>null\<close>.
\<close>

definition processLine ::
  "(string \<Rightarrow> json option) \<Rightarrow> string \<Rightarrow> json list \<Rightarrow> bool \<times> callback list \<times> json list" where
  "processLine parse line processedIds =
     (if startsWith line ''data: '' then
        (let data = trim (drop 6 line) in
         if data = [] then (False, [], processedIds)
         else if data = ''[DONE]'' then (True, [OnComplete], processedIds)
         else
           (case parse data of
              None \<Rightarrow> (False, [], processedIds)
            | Some JNull \<Rightarrow> (False, [], processedIds)
            | Some json \<Rightarrow>
                (let chunkId = getProp json ''id'' in
                 if idSeen processedIds chunkId then (False, [], processedIds)
                 else
                   (case deltaOf json of
                      None \<Rightarrow> (False, [], processedIds)
                    | Some delta \<Rightarrow>
                        (let chunk = chunkOfDelta delta in
                         if hasData chunk
                         then (False, [OnChunk chunk], recordId processedIds chunkId)
                         else (False, [], processedIds))))))
      else (False, [], processedIds))"

section \<open>The frame reader (\<^verbatim>\<open>askQuestionStream\<close>)\<close>

text \<open>
  The inner loop \<^verbatim>\<open>while ((newlineIndex = buffer.indexOf('\n')) !== -1)\<close>: the result is
  the buffer it leaves, whether the completion callback has run (it sets
  \<^verbatim>\<open>isComplete\<close>), the callbacks called, and the processed ids.
\<close>

function processBuffer ::
  "(string \<Rightarrow> json option) \<Rightarrow> string \<Rightarrow> json list \<Rightarrow> string \<times> bool \<times> callback list \<times> json list" where
  "processBuffer parse buffer processedIds =
     (if CHR 0x0A \<in> set buffer then
        (let line = takeWhile (\<lambda>c. c \<noteq> CHR 0x0A) buffer;
             rest = drop 1 (dropWhile (\<lambda>c. c \<noteq> CHR 0x0A) buffer);
             trimmed = trim line
         in if trimmed = [] then processBuffer parse rest processedIds
            else
              (case processLine parse trimmed processedIds of
                 (wasComplete, calls, ids) \<Rightarrow>
                   (if wasComplete then ([], True, calls, ids)
                    else
                      (case processBuffer parse rest ids of
                         (buffer', done, calls', ids') \<Rightarrow> (buffer', done, calls @ calls', ids')))))
      else (buffer, False, [], processedIds))"
  by pat_completeness auto
termination
proof (relation "measure (\<lambda>(parse, buffer, ids). length buffer)")
  show "wf (measure (\<lambda>(parse, buffer, ids). length buffer))" by simp
next
  fix parse :: "string \<Rightarrow> json option" and buffer :: string and processedIds :: "json list"
    and x xa xb
  assume "CHR 0x0A \<in> set buffer" and "xa = drop 1 (dropWhile (\<lambda>c. c \<noteq> CHR 0x0A) buffer)"
  then show "((parse, xa, processedIds), (parse, buffer, processedIds))
      \<in> measure (\<lambda>(parse, buffer, ids). length buffer)"
    using length_dropWhile_le [of "\<lambda>c. c \<noteq> CHR 0x0A" buffer]
    by (cases "dropWhile (\<lambda>c. c \<noteq> CHR 0x0A) buffer") auto
next
  fix parse :: "string \<Rightarrow> json option" and buffer :: string and processedIds :: "json list"
    and x xa xb xc xd y ya
  assume "CHR 0x0A \<in> set buffer" and "xa = drop 1 (dropWhile (\<lambda>c. c \<noteq> CHR 0x0A) buffer)"
  then show "((parse, xa, ya), (parse, buffer, processedIds))
      \<in> measure (\<lambda>(parse, buffer, ids). length buffer)"
    using length_dropWhile_le [of "\<lambda>c. c \<noteq> CHR 0x0A" buffer]
    by (cases "dropWhile (\<lambda>c. c \<noteq> CHR 0x0A) buffer") auto
qed

declare processBuffer.simps [simp del]

text \<open>
  The outer loop, for a response whose reads all succeed: \<open>chunks\<close> are the decoded
  texts of the successive reads, and the empty list is the read that reports the end
  of the stream. The result has the callbacks of each read, read by read (between
  two reads the function waits; the callbacks of one read are called in one
  synchronous run). At the end of the stream the rest of the buffer is processed
  with a completion callback that does nothing, so only its \<^verbatim>\<open>onChunk\<close> calls reach
  the caller.
\<close>

fun isOnChunk :: "callback \<Rightarrow> bool" where
  "isOnChunk (OnChunk c) = True"
| "isOnChunk OnComplete = False"

definition endOfStream ::
  "(string \<Rightarrow> json option) \<Rightarrow> string \<Rightarrow> bool \<Rightarrow> json list \<Rightarrow> callback list" where
  "endOfStream parse buffer isComplete processedIds =
     (if isComplete then []
      else
        (if trim buffer = [] then []
         else if startsWith (trim buffer) ''data: ''
         then filter isOnChunk (fst (snd (processLine parse (trim buffer) processedIds)))
         else [])
        @ [OnComplete])"

fun readLoop ::
  "(string \<Rightarrow> json option) \<Rightarrow> string list \<Rightarrow> string \<Rightarrow> bool \<Rightarrow> json list \<Rightarrow> callback list list" where
  "readLoop parse [] buffer isComplete processedIds =
     [endOfStream parse buffer isComplete processedIds]"
| "readLoop parse (chunk # chunks) buffer isComplete processedIds =
     (if chunk = [] then [] # readLoop parse chunks buffer isComplete processedIds
      else
        (case processBuffer parse (buffer @ chunk) processedIds of
           (buffer', done, calls, ids) \<Rightarrow>
             calls # readLoop parse chunks buffer' (if done then True else isComplete) ids))"

text \<open>The callbacks that \<^verbatim>\<open>askQuestionStream\<close> calls, in their order.\<close>

definition askQuestionStream :: "(string \<Rightarrow> json option) \<Rightarrow> string list \<Rightarrow> callback list" where
  "askQuestionStream parse chunks = concat (readLoop parse chunks [] False [])"

section \<open>A reader for JSON texts\<close>

text \<open>
  \<^verbatim>\<open>JSON.parse\<close> belongs to the platform, and the decoder above takes it as a
  parameter. \<open>parseJSON\<close> is a reader for the JSON texts without fractions, exponents
  and \<^verbatim>\<open>\u\<close> escapes, and with integers of at most 15 digits, which a double holds
  exactly; it is what the concrete frames below are decoded with. The
  recursion is bounded by the length of the text.
\<close>

definition isJsonSpace :: "char \<Rightarrow> bool" where
  "isJsonSpace c = (c \<in> set [CHR 0x20, CHR 0x09, CHR 0x0A, CHR 0x0D])"

definition skipSpace :: "string \<Rightarrow> string" where
  "skipSpace s = dropWhile isJsonSpace s"

definition unescape :: "char \<Rightarrow> char option" where
  "unescape e =
     (if e = CHR 0x22 then Some (CHR 0x22)
      else if e = CHR 0x5C then Some (CHR 0x5C)
      else if e = CHR ''/'' then Some (CHR ''/'')
      else if e = CHR ''b'' then Some (CHR 0x08)
      else if e = CHR ''f'' then Some (CHR 0x0C)
      else if e = CHR ''n'' then Some (CHR 0x0A)
      else if e = CHR ''r'' then Some (CHR 0x0D)
      else if e = CHR ''t'' then Some (CHR 0x09)
      else None)"

text \<open>The characters of a string literal behind its opening quote.\<close>

fun readString :: "string \<Rightarrow> (string \<times> string) option" where
  "readString [] = None"
| "readString (c # cs) =
     (if c = CHR 0x22 then Some ([], cs)
      else if c = CHR 0x5C then
        (case cs of
           [] \<Rightarrow> None
         | e # r \<Rightarrow>
             (case unescape e of
                None \<Rightarrow> None
              | Some d \<Rightarrow>
                  (case readString r of None \<Rightarrow> None | Some (str, r') \<Rightarrow> Some (d # str, r'))))
      else if (of_char c :: nat) < 32 then None
      else (case readString cs of None \<Rightarrow> None | Some (str, r') \<Rightarrow> Some (c # str, r')))"

definition digitsValue :: "string \<Rightarrow> nat" where
  "digitsValue ds = foldl (\<lambda>n d. 10 * n + ((of_char d :: nat) - 48)) 0 ds"

definition readNatural :: "string \<Rightarrow> (nat \<times> string) option" where
  "readNatural s =
     (let ds = takeWhile isDigit s in
      if ds = [] then None
      else if 15 < length ds then None
      else if 1 < length ds \<and> hd ds = CHR ''0'' then None
      else Some (digitsValue ds, dropWhile isDigit s))"

definition readNumber :: "string \<Rightarrow> (json \<times> string) option" where
  "readNumber s =
     (case s of
        [] \<Rightarrow> None
      | c # cs \<Rightarrow>
          (if c = CHR ''-'' then
             (case readNatural cs of None \<Rightarrow> None | Some (n, r) \<Rightarrow> Some (JNumber (- real n), r))
           else
             (case readNatural s of None \<Rightarrow> None | Some (n, r) \<Rightarrow> Some (JNumber (real n), r))))"

fun readValue :: "nat \<Rightarrow> string \<Rightarrow> (json \<times> string) option"
  and readElements :: "nat \<Rightarrow> string \<Rightarrow> (json list \<times> string) option"
  and readMembers :: "nat \<Rightarrow> string \<Rightarrow> ((string \<times> json) list \<times> string) option" where
  "readValue 0 s = None"
| "readValue (Suc n) s =
     (case skipSpace s of
        [] \<Rightarrow> None
      | c # cs \<Rightarrow>
          (if c = CHR ''{'' then
             (if startsWith (skipSpace cs) ''}'' then Some (JObject [], drop 1 (skipSpace cs))
              else (case readMembers n cs of
                      None \<Rightarrow> None | Some (kvs, r) \<Rightarrow> Some (JObject kvs, r)))
           else if c = CHR ''['' then
             (if startsWith (skipSpace cs) '']'' then Some (JArray [], drop 1 (skipSpace cs))
              else (case readElements n cs of
                      None \<Rightarrow> None | Some (vs, r) \<Rightarrow> Some (JArray vs, r)))
           else if c = CHR 0x22 then
             (case readString cs of None \<Rightarrow> None | Some (str, r) \<Rightarrow> Some (JString str, r))
           else if startsWith (c # cs) ''true'' then Some (JBool True, drop 4 (c # cs))
           else if startsWith (c # cs) ''false'' then Some (JBool False, drop 5 (c # cs))
           else if startsWith (c # cs) ''null'' then Some (JNull, drop 4 (c # cs))
           else readNumber (c # cs)))"
| "readElements 0 s = None"
| "readElements (Suc n) s =
     (case readValue n s of
        None \<Rightarrow> None
      | Some (v, r) \<Rightarrow>
          (case skipSpace r of
             [] \<Rightarrow> None
           | c # cs \<Rightarrow>
               (if c = CHR '','' then
                  (case readElements n cs of
                     None \<Rightarrow> None | Some (vs, r') \<Rightarrow> Some (v # vs, r'))
                else if c = CHR '']'' then Some ([v], cs)
                else None)))"
| "readMembers 0 s = None"
| "readMembers (Suc n) s =
     (case skipSpace s of
        [] \<Rightarrow> None
      | q # qs \<Rightarrow>
          (if q = CHR 0x22 then
             (case readString qs of
                None \<Rightarrow> None
              | Some (k, r) \<Rightarrow>
                  (case skipSpace r of
                     [] \<Rightarrow> None
                   | c # cs \<Rightarrow>
                       (if c = CHR '':'' then
                          (case readValue n cs of
                             None \<Rightarrow> None
                           | Some (v, r') \<Rightarrow>
                               (case skipSpace r' of
                                  [] \<Rightarrow> None
                                | d # ds \<Rightarrow>
                                    (if d = CHR '','' then
                                       (case readMembers n ds of
                                          None \<Rightarrow> None
                                        | Some (kvs, r'') \<Rightarrow> Some ((k, v) # kvs, r''))
                                     else if d = CHR ''}'' then Some ([(k, v)], ds)
                                     else None)))
                        else None)))
           else None))"

definition parseJSON :: "string \<Rightarrow> json option" where
  "parseJSON s =
     (case readValue (Suc (length s)) s of
        None \<Rightarrow> None
      | Some (v, r) \<Rightarrow> (if skipSpace r = [] then Some v else None))"

section \<open>The text normalizer and the block assembler (the \<^verbatim>\<open>onChunk\<close> callback of \<^verbatim>\<open>App.tsx\<close>)\<close>

text \<open>The five replacements that make \<^verbatim>\<open>cleanedReasoning\<close>, in their order.\<close>

definition cleanReasoning :: "string \<Rightarrow> string" where
  "cleanReasoning r =
     removeAll ''</redacted_reasoning>''
       (removeAll ''<think>''
          (removeAll ''</think>''
             (removeAll ''<think>''
                (removeAll ''</tool>'' r))))"

text \<open>
  \<^verbatim>\<open>cleanedReasoning.match(/<output>(.*?)<\/output>/gs)\<close>, with the empty list for
  \<^verbatim>\<open>null\<close>: the leftmost opening tag, the text up to the first closing tag behind it
  (the dot matches every character under the \<^verbatim>\<open>s\<close> flag), and the search goes on
  behind the match. The expression has no \<^verbatim>\<open>i\<close> flag.
\<close>

function outputMatches :: "string \<Rightarrow> string list" where
  "outputMatches s =
     (case findSub ''<output>'' s of
        None \<Rightarrow> []
      | Some (before, rest) \<Rightarrow>
          (case findSub ''</output>'' rest of
             None \<Rightarrow> []
           | Some (inner, after) \<Rightarrow>
               (''<output>'' @ inner @ ''</output>'') # outputMatches after))"
  by pat_completeness auto
termination
proof (relation "measure length")
  show "wf (measure length)" by simp
next
  fix s :: string and x2 x y x2a xa ya
  assume a: "findSub ''<output>'' s = Some x2" "(x, y) = x2"
    and b: "findSub ''</output>'' y = Some x2a" "(xa, ya) = x2a"
  have shorter: "length after < length t"
    if "findSub p t = Some (before, after)" and "p \<noteq> []" for p t before after
    using that
  proof (induction t arbitrary: before)
    case Nil
    then show ?case by simp
  next
    case (Cons c cs)
    show ?case
    proof (cases "startsWith (c # cs) p")
      case True
      then have "after = drop (length p) (c # cs)" using Cons.prems by simp
      then show ?thesis using Cons.prems(2) by (cases p) auto
    next
      case False
      then obtain b' where "findSub p cs = Some (b', after)"
        using Cons.prems by (auto split: option.splits)
      then show ?thesis using Cons.IH Cons.prems(2) by fastforce
    qed
  qed
  have "length y < length s"
    using a shorter [of "''<output>''" s x y] by simp
  moreover have "length ya < length y"
    using b shorter [of "''</output>''" y xa ya] by simp
  ultimately show "(ya, s) \<in> measure length" by simp
qed

declare outputMatches.simps [simp del]

text \<open>\<^verbatim>\<open>outputMatch.match(/<output>(.*?)<\/output>/s)\<close>, its first group.\<close>

definition outputGroup :: "string \<Rightarrow> string option" where
  "outputGroup m =
     (case findSub ''<output>'' m of
        None \<Rightarrow> None
      | Some (before, rest) \<Rightarrow>
          (case findSub ''</output>'' rest of
             None \<Rightarrow> None
           | Some (inner, after) \<Rightarrow> Some inner))"

text \<open>The filter of \<^verbatim>\<open>existingOutputBlocks\<close>.\<close>

fun isOutputBlock :: "string \<Rightarrow> MessageBlock \<Rightarrow> bool" where
  "isOutputBlock outputContent (Tool t) = (type t = ''output'' \<and> toolOutput t = Some outputContent)"
| "isOutputBlock outputContent b = False"

definition outputTool :: "string \<Rightarrow> ExecutedTool" where
  "outputTool outputContent =
     \<lparr>index = - 1, type = ''output'', arguments = None, search_results = None,
      toolOutput = Some outputContent\<rparr>"

text \<open>The state of one run of the callback is \<^verbatim>\<open>newBlocks\<close> with \<^verbatim>\<open>hasChanges\<close>.
  \<open>pushOutput\<close> is the body of the second \<^verbatim>\<open>forEach\<close>.\<close>

definition pushOutput :: "MessageBlock list \<times> bool \<Rightarrow> string \<Rightarrow> MessageBlock list \<times> bool" where
  "pushOutput st outputMatch =
     (case outputGroup outputMatch of
        None \<Rightarrow> st
      | Some inner \<Rightarrow>
          (let outputContent = trim inner in
           if outputContent = [] then st
           else if filter (isOutputBlock outputContent) (fst st) = []
           then (fst st @ [Tool (outputTool outputContent)], True)
           else st))"

text \<open>\<^verbatim>\<open>reasoningWithoutOutput\<close>: every match is removed at its first occurrence, and
  the text is trimmed only when there was a match.\<close>

definition reasoningWithoutOutput :: "string \<Rightarrow> string" where
  "reasoningWithoutOutput cleanedReasoning =
     (let ms = outputMatches cleanedReasoning in
      if ms = [] then cleanedReasoning
      else trim (foldl (\<lambda>text m. removeFirst m text) cleanedReasoning ms))"

text \<open>\<^verbatim>\<open>lastBlock.content.slice(-1)\<close> and the test \<^verbatim>\<open>/[a-zA-Z0-9]/.test\<close> on a string.\<close>

definition lastChar :: "string \<Rightarrow> string" where
  "lastChar s = (if s = [] then [] else [last s])"

definition needsSpace :: "string \<Rightarrow> string \<Rightarrow> bool" where
  "needsSpace lastC firstC =
     (list_ex isAlnum lastC \<and> list_ex isAlnum firstC \<and> lastC \<noteq> '' '' \<and> firstC \<noteq> '' '')"

text \<open>\<^verbatim>\<open>newBlocks[newBlocks.length - 1]\<close>, which is \<^verbatim>\<open>undefined\<close> on the empty list.\<close>

definition lastBlock :: "MessageBlock list \<Rightarrow> MessageBlock option" where
  "lastBlock bs = (if bs = [] then None else Some (last bs))"

definition appendReasoning :: "MessageBlock list \<Rightarrow> string \<Rightarrow> MessageBlock list" where
  "appendReasoning newBlocks fragment =
     (case lastBlock newBlocks of
        Some (Reasoning t) \<Rightarrow>
          (let separator = (if needsSpace (lastChar t) (take 1 fragment) then '' '' else []);
               combined = t @ separator @ fragment
           in newBlocks[length newBlocks - 1 := Reasoning (addSpaceBetweenWords combined)])
      | _ \<Rightarrow> newBlocks @ [Reasoning (addSpaceBetweenWords fragment)])"

definition handleReasoning :: "StreamChunk \<Rightarrow> MessageBlock list \<times> bool \<Rightarrow> MessageBlock list \<times> bool" where
  "handleReasoning chunk st =
     (case reasoning chunk of
        None \<Rightarrow> st
      | Some r \<Rightarrow>
          (if r = [] then st
           else
             (let cleanedReasoning = cleanReasoning r;
                  st' = foldl pushOutput st (outputMatches cleanedReasoning);
                  fragment = reasoningWithoutOutput cleanedReasoning
              in if fragment = [] then st'
                 else (appendReasoning (fst st') fragment, True))))"

text \<open>The tool channel: \<^verbatim>\<open>existingToolIndices\<close> is built from the tool blocks of
  \<^verbatim>\<open>newBlocks\<close> and grows with every tool that is pushed.\<close>

fun toolIndexOf :: "MessageBlock \<Rightarrow> real list" where
  "toolIndexOf (Tool t) = [index t]"
| "toolIndexOf b = []"

definition toolIndices :: "MessageBlock list \<Rightarrow> real list" where
  "toolIndices bs = concat (map toolIndexOf bs)"

fun pushTools ::
  "ExecutedTool list \<Rightarrow> real set \<Rightarrow> MessageBlock list \<times> bool \<Rightarrow> MessageBlock list \<times> bool" where
  "pushTools [] existingToolIndices st = st"
| "pushTools (tool # tools) existingToolIndices st =
     (if index tool \<in> existingToolIndices then pushTools tools existingToolIndices st
      else pushTools tools (insert (index tool) existingToolIndices) (fst st @ [Tool tool], True))"

definition handleTools :: "StreamChunk \<Rightarrow> MessageBlock list \<times> bool \<Rightarrow> MessageBlock list \<times> bool" where
  "handleTools chunk st =
     (case executed_tools chunk of
        None \<Rightarrow> st
      | Some tools \<Rightarrow>
          (if tools = [] then st else pushTools tools (set (toolIndices (fst st))) st))"

definition appendContent :: "MessageBlock list \<Rightarrow> string \<Rightarrow> MessageBlock list" where
  "appendContent newBlocks c =
     (case lastBlock newBlocks of
        Some (Content t) \<Rightarrow> newBlocks[length newBlocks - 1 := Content (t @ c)]
      | _ \<Rightarrow> newBlocks @ [Content c])"

definition handleContent :: "StreamChunk \<Rightarrow> MessageBlock list \<times> bool \<Rightarrow> MessageBlock list \<times> bool" where
  "handleContent chunk st =
     (case content chunk of
        None \<Rightarrow> st
      | Some c \<Rightarrow> (if c = [] then st else (appendContent (fst st) c, True)))"

text \<open>The body of the state update: the blocks of the streaming message before the
  chunk, and behind it (the previous blocks when nothing has changed).\<close>

definition updateBlocks :: "MessageBlock list \<Rightarrow> StreamChunk \<Rightarrow> MessageBlock list" where
  "updateBlocks currentBlocks chunk =
     (case handleContent chunk (handleTools chunk (handleReasoning chunk (currentBlocks, False))) of
        (newBlocks, hasChanges) \<Rightarrow> (if hasChanges then newBlocks else currentBlocks))"

section \<open>One turn\<close>

text \<open>
  The caller of \<^verbatim>\<open>askQuestionStream\<close> in \<^verbatim>\<open>handleSend\<close>, for one turn: the blocks of
  the assistant message of the turn, whether \<^verbatim>\<open>streamingMessageIndexRef\<close> still holds
  the index of that message, and how often the completion callback has run.

  The completion callback sets the reference to -1 at once. The chunk callback
  only queues a state update, \<^verbatim>\<open>setMessages\<close> with an updater function; the updater
  runs later, behind the synchronous run that has queued it, and reads the reference
  when it runs: it changes the blocks when the reference still holds the index, and
  gives the previous state back otherwise. The callbacks of one read are one
  synchronous run, and the updaters it has queued are taken to run at its end, in
  their order. (React may run an updater at once when nothing else is queued; that
  is left out, and the updaters queued behind such a one run late all the same.)
\<close>

record Turn =
  blocks :: "MessageBlock list"
  streaming :: bool
  completions :: nat

definition newTurn :: Turn where
  "newTurn = \<lparr>blocks = [], streaming = True, completions = 0\<rparr>"

text \<open>What a callback does when it is called.\<close>

fun called :: "Turn \<Rightarrow> callback \<Rightarrow> Turn" where
  "called t (OnChunk chunk) = t"
| "called t OnComplete = t\<lparr>streaming := False, completions := Suc (completions t)\<rparr>"

text \<open>The updaters that the callbacks queue, and an updater when it runs.\<close>

fun queuedChunks :: "callback list \<Rightarrow> StreamChunk list" where
  "queuedChunks [] = []"
| "queuedChunks (OnChunk chunk # calls) = chunk # queuedChunks calls"
| "queuedChunks (OnComplete # calls) = queuedChunks calls"

definition runUpdater :: "Turn \<Rightarrow> StreamChunk \<Rightarrow> Turn" where
  "runUpdater t chunk =
     (if streaming t then t\<lparr>blocks := updateBlocks (blocks t) chunk\<rparr> else t)"

definition deliverRead :: "Turn \<Rightarrow> callback list \<Rightarrow> Turn" where
  "deliverRead t calls = foldl runUpdater (foldl called t calls) (queuedChunks calls)"

definition runTurn :: "(string \<Rightarrow> json option) \<Rightarrow> string list \<Rightarrow> Turn" where
  "runTurn parse chunks = foldl deliverRead newTurn (readLoop parse chunks [] False [])"

section \<open>Frames and their effect on a turn\<close>

text \<open>\<open>payload\<close> is \<^verbatim>\<open>line.slice(6).trim()\<close>, the \<^verbatim>\<open>data\<close> of \<^verbatim>\<open>processLine\<close>, and
  \<open>decode\<close> is the JSON value of a data frame that is neither blank nor the sentinel.\<close>

definition payload :: "string \<Rightarrow> string" where
  "payload line = trim (drop 6 line)"

definition decode :: "(string \<Rightarrow> json option) \<Rightarrow> string \<Rightarrow> json option" where
  "decode parse line =
     (if startsWith line ''data: '' \<and> payload line \<noteq> [] \<and> payload line \<noteq> ''[DONE]''
      then parse (payload line) else None)"

text \<open>One line that comes in a read of its own: it is given to \<^verbatim>\<open>processLine\<close>, and
  its callbacks go to the turn. The state is the set of processed ids and the turn.\<close>

definition feedLine ::
  "(string \<Rightarrow> json option) \<Rightarrow> json list \<times> Turn \<Rightarrow> string \<Rightarrow> json list \<times> Turn" where
  "feedLine parse st line =
     (case processLine parse line (fst st) of
        (wasComplete, calls, ids) \<Rightarrow> (ids, deliverRead (snd st) calls))"

text \<open>A channel of a delta that is absent or empty, and a frame with no other channel.\<close>

definition absentOrEmpty :: "json option \<Rightarrow> bool" where
  "absentOrEmpty v =
     (case v of None \<Rightarrow> True | Some (JString s) \<Rightarrow> s = [] | Some (JArray xs) \<Rightarrow> xs = []
      | Some _ \<Rightarrow> False)"

definition channelsEmpty :: "json \<Rightarrow> bool" where
  "channelsEmpty j =
     (case deltaOf j of
        None \<Rightarrow> True
      | Some d \<Rightarrow> absentOrEmpty (getProp d ''reasoning'')
          \<and> absentOrEmpty (getProp d ''executed_tools'')
          \<and> absentOrEmpty (getProp d ''content''))"

text \<open>Chunks that carry one channel.\<close>

definition reasoningOnly :: "string \<Rightarrow> StreamChunk" where
  "reasoningOnly r = \<lparr>reasoning = Some r, executed_tools = None, content = None\<rparr>"

definition toolsOnly :: "ExecutedTool list \<Rightarrow> StreamChunk" where
  "toolsOnly ts = \<lparr>reasoning = None, executed_tools = Some ts, content = None\<rparr>"

definition contentOnly :: "string \<Rightarrow> StreamChunk" where
  "contentOnly c = \<lparr>reasoning = None, executed_tools = None, content = Some c\<rparr>"

section \<open>Predicates of the proofs\<close>

text \<open>A text is \<open>glued\<close> when a lowercase letter stands right before an uppercase
  letter somewhere in it.\<close>

fun glued :: "string \<Rightarrow> bool" where
  "glued (a # b # r) = (if isLower a \<and> isUpper b then True else glued (b # r))"
| "glued s = False"

text \<open>\<open>occursIn p s\<close>: the text \<open>p\<close> stands somewhere in \<open>s\<close>.\<close>

fun occursIn :: "string \<Rightarrow> string \<Rightarrow> bool" where
  "occursIn p [] = (p = [])"
| "occursIn p (c # cs) = (if startsWith (c # cs) p then True else occursIn p cs)"

text \<open>The indices of the tool blocks other than the sentinel -1 of the synthetic output
  blocks, and a tool event of a real tool.\<close>

definition realIndices :: "MessageBlock list \<Rightarrow> real list" where
  "realIndices bs = filter (\<lambda>i. i \<noteq> - 1) (toolIndices bs)"

definition searchTool :: "real \<Rightarrow> ExecutedTool" where
  "searchTool i =
     \<lparr>index = i, type = ''search'', arguments = None, search_results = None, toolOutput = None\<rparr>"

section \<open>The word-merge repair\<close>

lemma lower_not_upper: "isLower c \<Longrightarrow> \<not> isUpper c"
  by (simp add: isLower_def isUpper_def)

lemma space_class: "\<not> isLower (CHR '' '')" "\<not> isUpper (CHR '' '')"
  by (simp_all add: isLower_def isUpper_def)

lemma upper_I: "isUpper (CHR ''I'')"
  by (simp add: isUpper_def)

lemma camelPass_head: "\<exists>t. camelPass (a # s) = a # t"
  by (cases s) auto

lemma glued_Cons_upper: "isUpper b \<Longrightarrow> glued (b # t) = glued t"
  by (cases t) (auto dest: lower_not_upper)

lemma camelPass_not_glued: "\<not> glued (camelPass s)"
proof (induction s rule: camelPass.induct)
  case (1 a b r)
  show ?case
  proof (cases "isLower a \<and> isUpper b")
    case True
    then have "\<not> glued (b # camelPass r)" using 1 by (simp add: glued_Cons_upper)
    then show ?thesis using True by (simp add: space_class)
  next
    case False
    obtain t where t: "camelPass (b # r) = b # t" using camelPass_head by blast
    have "\<not> glued (camelPass (b # r))" using 1(2) [OF False] .
    then show ?thesis using False t by auto
  qed
qed simp_all

lemma camelPass_id: "\<not> glued s \<Longrightarrow> camelPass s = s"
  by (induction s rule: camelPass.induct) (auto split: if_splits)

text \<open>The second pass never finds a match behind the first: its pattern needs a
  lowercase letter right before the uppercase \<open>I\<close>.\<close>

lemma pronounPass_id: "\<not> glued s \<Longrightarrow> pronounPass s = s"
proof (induction s rule: pronounPass.induct)
  case (1 a b c r)
  then show ?case by (auto simp: upper_I split: if_splits)
qed simp_all

lemma glued_tail: "glued s \<Longrightarrow> glued (a # s)"
  by (cases s) auto

lemma glued_space_Cons: "glued (CHR '' '' # s) = glued s"
  by (cases s) (auto simp: space_class)

lemma glued_Cons_space: "glued (a # CHR '' '' # s) = glued s"
  by (simp add: space_class glued_space_Cons)

lemma glued_append_space: "glued (xs @ CHR '' '' # ys) = (glued xs \<or> glued ys)"
proof (induction xs rule: glued.induct)
  case (1 a b r)
  then show ?case by simp
next
  case "2_1"
  then show ?case by (simp add: glued_space_Cons)
next
  case "2_2"
  then show ?case by (simp add: space_class glued_space_Cons)
qed

lemma glued_drop: "glued (drop n s) \<Longrightarrow> glued s"
proof (induction n arbitrary: s)
  case 0
  then show ?case by simp
next
  case (Suc n)
  then show ?case by (cases s) (auto intro: glued_tail)
qed

lemma glued_take: "glued (take n s) \<Longrightarrow> glued s"
proof (induction s arbitrary: n rule: glued.induct)
  case (1 a b r)
  show ?case
  proof (cases n)
    case 0
    then show ?thesis using 1 by simp
  next
    case (Suc m)
    show ?thesis
    proof (cases m)
      case 0
      then show ?thesis using 1 Suc by simp
    next
      case (Suc k)
      show ?thesis
      proof (cases "isLower a \<and> isUpper b")
        case True
        then show ?thesis by simp
      next
        case False
        have "glued (take (Suc k) (b # r))"
          using "1.prems" False \<open>n = Suc m\<close> Suc by auto
        then have "glued (b # r)" using "1.IH" [OF False] by blast
        then show ?thesis by (rule glued_tail)
      qed
    qed
  qed
next
  case "2_1"
  then show ?case by simp
next
  case "2_2"
  then show ?case by (cases n) auto
qed

lemma matchWord_bound: "matchWord ws s = Some n \<Longrightarrow> n < length s"
  by (induction ws) (auto split: if_splits)

lemma modalPass_head: "\<exists>t. modalPass (a # s) = a # t"
  by (auto split: option.splits)

lemma glued_Cons_same_head:
  assumes "\<not> glued (c # r)" and "\<not> glued r'" and "r = [] \<longrightarrow> r' = []"
    and "\<And>x xs. r = x # xs \<Longrightarrow> \<exists>t. r' = x # t"
  shows "\<not> glued (c # r')"
proof (cases r)
  case Nil
  then show ?thesis using assms(3) by simp
next
  case (Cons x xs)
  then obtain t where "r' = x # t" using assms(4) by blast
  then show ?thesis using assms(1,2) Cons by (auto split: if_splits)
qed

lemma modalPass_Nil: "modalPass s = [] \<longleftrightarrow> s = []"
  by (cases s) (auto split: option.splits)

lemma glued_Cons_modalPass:
  assumes "\<not> glued (c # r)" and "\<not> glued (modalPass r)"
  shows "\<not> glued (c # modalPass r)"
  using assms(1,2)
proof (rule glued_Cons_same_head)
  show "r = [] \<longrightarrow> modalPass r = []" by simp
next
  fix x xs assume "r = x # xs"
  then show "\<exists>t. modalPass r = x # t" using modalPass_head by simp
qed

text \<open>The third pass only puts spaces in, so it glues nothing.\<close>

lemma modalPass_not_glued: "\<not> glued s \<Longrightarrow> \<not> glued (modalPass s)"
proof (induction s rule: modalPass.induct)
  case 1
  then show ?case by simp
next
  case (2 a s)
  have s: "\<not> glued s" using "2.prems" glued_tail by blast
  show ?case
  proof (cases "isLetter a \<and> matchWord modalWords s \<noteq> None")
    case False
    then have e: "modalPass (a # s) = a # modalPass s" by (auto split: option.splits)
    have "\<not> glued (modalPass s)" using False 2 s by (cases "isLetter a") auto
    then show ?thesis unfolding e using "2.prems" by (rule glued_Cons_modalPass [rotated])
  next
    case True
    then obtain n where n: "matchWord modalWords s = Some n" and a: "isLetter a" by auto
    have b: "n < length s" using n by (rule matchWord_bound)
    let ?rest = "drop (Suc n) s"
    have e: "modalPass (a # s) = a # CHR '' '' # take n s @ CHR '' '' # s ! n # modalPass ?rest"
      using a n by simp
    have d: "drop n s = s ! n # ?rest" using b by (simp add: Cons_nth_drop_Suc)
    have 1: "\<not> glued (s ! n # ?rest)" using s glued_drop [of n s] d by auto
    then have "\<not> glued ?rest" using glued_tail by blast
    then have "\<not> glued (modalPass ?rest)" using "2.IH"(2) [OF a n] by simp
    then have 2: "\<not> glued (s ! n # modalPass ?rest)" using 1 by (rule glued_Cons_modalPass [rotated])
    have 3: "\<not> glued (take n s)" using s glued_take by blast
    show ?thesis unfolding e using 2 3 by (simp add: space_class glued_space_Cons glued_append_space)
  qed
qed

lemma repair_not_glued: "\<not> glued (addSpaceBetweenWords s)"
proof -
  have "pronounPass (camelPass s) = camelPass s"
    by (rule pronounPass_id) (rule camelPass_not_glued)
  then show ?thesis
    using modalPass_not_glued [OF camelPass_not_glued, of s] by (simp add: addSpaceBetweenWords_def)
qed

text \<open>
  C9, as stated: \<^verbatim>\<open>addSpaceBetweenWords\<close> is idempotent on every string. It is not:
  the matches of the third replacement do not overlap, so the letter \<open>b\<close> of
  \<^verbatim>\<open>acanbcand\<close>, which ends the first match, cannot start the second one. The first
  application gives \<^verbatim>\<open>a can bcand\<close>, the second one \<^verbatim>\<open>a can b can d\<close>.
\<close>

theorem C9_counterexample:
  "addSpaceBetweenWords (addSpaceBetweenWords ''acanbcand'') \<noteq> addSpaceBetweenWords ''acanbcand''"
  by code_simp

text \<open>
  C9, amended: on a text that \<^verbatim>\<open>addSpaceBetweenWords\<close> has repaired, the function does
  what its third replacement (the modal words) alone does; the first two
  replacements change nothing there. So it is idempotent at every string whose
  repaired text has no modal word left between two letters.
\<close>

theorem C9_second_repair_is_modal_pass:
  "addSpaceBetweenWords (addSpaceBetweenWords s) = modalPass (addSpaceBetweenWords s)
   \<and> (modalPass (addSpaceBetweenWords s) = addSpaceBetweenWords s \<longrightarrow>
        addSpaceBetweenWords (addSpaceBetweenWords s) = addSpaceBetweenWords s)"
proof -
  have "camelPass (addSpaceBetweenWords s) = addSpaceBetweenWords s"
    by (rule camelPass_id) (rule repair_not_glued)
  moreover have "pronounPass (addSpaceBetweenWords s) = addSpaceBetweenWords s"
    by (rule pronounPass_id) (rule repair_not_glued)
  ultimately have "addSpaceBetweenWords (addSpaceBetweenWords s) = modalPass (addSpaceBetweenWords s)"
    by (simp add: addSpaceBetweenWords_def)
  then show ?thesis by simp
qed

theorem C9_witness:
  "addSpaceBetweenWords ''scanner willI'' = ''s can ner will I''
   \<and> addSpaceBetweenWords (addSpaceBetweenWords ''scanner willI'') = ''s can ner will I''"
proof -
  have v: "addSpaceBetweenWords ''scanner willI'' = ''s can ner will I''" by code_simp
  have h: "modalPass (addSpaceBetweenWords ''scanner willI'') = addSpaceBetweenWords ''scanner willI''"
    unfolding v by code_simp
  show ?thesis
    using v h C9_second_repair_is_modal_pass [of "''scanner willI''"] by simp
qed

section \<open>Concatenation of reasoning and of content\<close>

lemma alnum_not_space: "isAlnum c \<Longrightarrow> c \<noteq> CHR '' ''"
  by (auto simp: isAlnum_def isLower_def isUpper_def isDigit_def)

text \<open>
  C5: when a reasoning fragment is concatenated onto a Reasoning block whose last
  character is alphanumeric, and the first character of the fragment is alphanumeric
  too, one space is put between them and the repair runs over the combined text. The
  fragments \<^verbatim>\<open>To\<close> and \<^verbatim>\<open>gather\<close> give \<^verbatim>\<open>To gather\<close>, and the single fragment
  \<^verbatim>\<open>willI\<close> gives \<^verbatim>\<open>will I\<close>.
\<close>

theorem C5_space_between_reasoning_fragments:
  "(t \<noteq> [] \<and> isAlnum (last t) \<and> fragment \<noteq> [] \<and> isAlnum (hd fragment) \<longrightarrow>
      appendReasoning (bs @ [Reasoning t]) fragment
        = bs @ [Reasoning (addSpaceBetweenWords (t @ '' '' @ fragment))])
   \<and> foldl updateBlocks [] [reasoningOnly ''To'', reasoningOnly ''gather''] = [Reasoning ''To gather'']
   \<and> foldl updateBlocks [] [reasoningOnly ''willI''] = [Reasoning ''will I'']"
proof (intro conjI impI)
  assume a: "t \<noteq> [] \<and> isAlnum (last t) \<and> fragment \<noteq> [] \<and> isAlnum (hd fragment)"
  then have f: "take 1 fragment = [hd fragment]" by (cases fragment) auto
  have "needsSpace (lastChar t) (take 1 fragment)"
    using a f by (simp add: needsSpace_def lastChar_def alnum_not_space)
  then show "appendReasoning (bs @ [Reasoning t]) fragment
        = bs @ [Reasoning (addSpaceBetweenWords (t @ '' '' @ fragment))]"
    by (simp add: appendReasoning_def lastBlock_def)
next
  show "foldl updateBlocks [] [reasoningOnly ''To'', reasoningOnly ''gather''] = [Reasoning ''To gather'']"
    by code_simp
next
  show "foldl updateBlocks [] [reasoningOnly ''willI''] = [Reasoning ''will I'']"
    by code_simp
qed

theorem C5_witness:
  "appendReasoning [Reasoning ''To''] ''gather'' = [Reasoning ''To gather'']"
proof -
  have h: "''To'' \<noteq> [] \<and> isAlnum (last ''To'') \<and> ''gather'' \<noteq> [] \<and> isAlnum (hd ''gather'')"
    by (simp add: isAlnum_def isLower_def)
  have v: "addSpaceBetweenWords ''To gather'' = ''To gather''" by code_simp
  show ?thesis
    using h v C5_space_between_reasoning_fragments [of "''To''" "''gather''" "[]"] by simp
qed

text \<open>
  C4, at the failing input: the three raw lines of the scenario in one read.
  \<^verbatim>\<open>askQuestionStream\<close> calls \<^verbatim>\<open>onChunk\<close> with \<^verbatim>\<open>Hello\<close>, then with \<^verbatim>\<open> world\<close>, then
  the completion callback, and the block assembler makes the one Content block
  \<^verbatim>\<open>Hello world\<close> of the two chunks, the second fragment appended as it is, with no
  space put in. But the completion callback has set the reference to -1 before the
  two queued updaters run: both give the previous state back, and the transcript
  of the turn stays empty.
\<close>

theorem C4_chunks_of_the_sentinel_read_are_lost:
  \<open>askQuestionStream parseJSON
      [''data: {"id":"1","choices":[{"delta":{"content":"Hello"}}]}\<newline>data: {"id":"2","choices":[{"delta":{"content":" world"}}]}\<newline>data: [DONE]\<newline>'']
     = [OnChunk (contentOnly ''Hello''), OnChunk (contentOnly '' world''), OnComplete]
   \<and> foldl updateBlocks [] [contentOnly ''Hello'', contentOnly '' world''] = [Content ''Hello world'']
   \<and> updateBlocks (bs @ [Content t]) (contentOnly c) = bs @ [Content (t @ c)]
   \<and> runTurn parseJSON
      [''data: {"id":"1","choices":[{"delta":{"content":"Hello"}}]}\<newline>data: {"id":"2","choices":[{"delta":{"content":" world"}}]}\<newline>data: [DONE]\<newline>'']
     = \<lparr>blocks = [], streaming = False, completions = 1\<rparr>\<close>
proof (intro conjI)
  show \<open>askQuestionStream parseJSON
      [''data: {"id":"1","choices":[{"delta":{"content":"Hello"}}]}\<newline>data: {"id":"2","choices":[{"delta":{"content":" world"}}]}\<newline>data: [DONE]\<newline>'']
     = [OnChunk (contentOnly ''Hello''), OnChunk (contentOnly '' world''), OnComplete]\<close>
    by code_simp
next
  show "foldl updateBlocks [] [contentOnly ''Hello'', contentOnly '' world''] = [Content ''Hello world'']"
    by code_simp
next
  show "updateBlocks (bs @ [Content t]) (contentOnly c) = bs @ [Content (t @ c)]"
    by (simp add: updateBlocks_def contentOnly_def handleContent_def handleTools_def
        handleReasoning_def appendContent_def lastBlock_def)
next
  show \<open>runTurn parseJSON
      [''data: {"id":"1","choices":[{"delta":{"content":"Hello"}}]}\<newline>data: {"id":"2","choices":[{"delta":{"content":" world"}}]}\<newline>data: [DONE]\<newline>'']
     = \<lparr>blocks = [], streaming = False, completions = 1\<rparr>\<close>
    by code_simp
qed

section \<open>The frame decoder\<close>

lemma processLine_decode:
  "decode parse line = Some j \<Longrightarrow>
   processLine parse line ids =
     (if j = JNull \<or> idSeen ids (getProp j ''id'') then (False, [], ids)
      else (case deltaOf j of
              None \<Rightarrow> (False, [], ids)
            | Some delta \<Rightarrow>
                if hasData (chunkOfDelta delta)
                then (False, [OnChunk (chunkOfDelta delta)], recordId ids (getProp j ''id''))
                else (False, [], ids)))"
  by (cases j) (auto simp: processLine_def decode_def payload_def Let_def split: if_splits option.splits)

text \<open>
  C6: a frame whose payload is not a JSON text (and is not the sentinel, which is the
  completion signal) is dropped: \<^verbatim>\<open>processLine\<close> returns \<^verbatim>\<open>false\<close> by its
  \<^verbatim>\<open>catch\<close>, calls no callback and leaves the processed ids as they are, so the turn
  is unchanged, and the loop over the buffer goes on with the lines behind it as if
  the frame had not been there.
\<close>

theorem C6_malformed_frame_dropped:
  assumes "parse (payload (trim line)) = None"
    and "payload (trim line) \<noteq> ''[DONE]''"
    and "CHR 0x0A \<notin> set line"
  shows "processLine parse (trim line) ids = (False, [], ids)
     \<and> feedLine parse (ids, t) (trim line) = (ids, t)
     \<and> processBuffer parse (line @ [CHR 0x0A] @ rest) ids = processBuffer parse rest ids"
proof -
  have 1: "processLine parse (trim line) ids = (False, [], ids)"
    using assms(1,2) by (auto simp: processLine_def payload_def Let_def)
  have tw: "takeWhile (\<lambda>c. c \<noteq> CHR 0x0A) (line @ CHR 0x0A # rest) = line"
    using assms(3) by (induction line) auto
  have dw: "dropWhile (\<lambda>c. c \<noteq> CHR 0x0A) (line @ CHR 0x0A # rest) = CHR 0x0A # rest"
    using assms(3) by (induction line) auto
  have 2: "processBuffer parse (line @ [CHR 0x0A] @ rest) ids = processBuffer parse rest ids"
    by (subst processBuffer.simps) (simp add: tw dw 1 Let_def)
  show ?thesis using 1 2 by (simp add: feedLine_def deliverRead_def)
qed

theorem C6_witness:
  \<open>parseJSON ''{not valid json'' = None
   \<and> processLine parseJSON ''data: {not valid json'' [JString ''1''] = (False, [], [JString ''1''])
   \<and> feedLine parseJSON ([JString ''1''], newTurn) ''data: {not valid json'' = ([JString ''1''], newTurn)
   \<and> processBuffer parseJSON (''data: {not valid json'' @ [CHR 0x0A] @ ''data: [DONE]\<newline>'') [JString ''1'']
       = processBuffer parseJSON ''data: [DONE]\<newline>'' [JString ''1'']\<close>
proof -
  have t: "trim ''data: {not valid json'' = ''data: {not valid json''" by code_simp
  have p: "payload ''data: {not valid json'' = ''{not valid json''" by code_simp
  have h1: "parseJSON (payload (trim ''data: {not valid json'')) = None"
    unfolding t p by code_simp
  have h2: "payload (trim ''data: {not valid json'') \<noteq> ''[DONE]''"
    unfolding t p by simp
  have h3: "CHR 0x0A \<notin> set ''data: {not valid json''" by simp
  show ?thesis
    using C6_malformed_frame_dropped [of parseJSON "''data: {not valid json''" "[JString ''1'']"
        newTurn "''data: [DONE]\<newline>''"] h1 h2 h3
    unfolding t p by simp
qed

lemma absentOrEmpty_channels:
  "absentOrEmpty v \<Longrightarrow> nonEmptyString v = None \<and> nonEmptyTools v = None"
  by (auto simp: absentOrEmpty_def nonEmptyString_def nonEmptyTools_def split: option.splits json.splits)

lemma channelsEmpty_noData:
  "channelsEmpty j \<Longrightarrow> deltaOf j = Some d \<Longrightarrow> \<not> hasData (chunkOfDelta d)"
  by (simp add: channelsEmpty_def chunkOfDelta_def hasData_def hasText_def hasTools_def
      absentOrEmpty_channels)

text \<open>
  C10: a frame whose three channels are all absent or empty calls no callback and
  does not record its id; a later frame with the same id and a channel that is not
  empty is therefore processed (unless the id was in the set before both), and only
  then is the id recorded.
\<close>

theorem C10_id_recorded_only_with_data:
  assumes "decode parse line = Some j" and "channelsEmpty j"
    and "decode parse line' = Some j'" and "getProp j' ''id'' = getProp j ''id''"
    and "deltaOf j' = Some d'" and "hasData (chunkOfDelta d')"
    and "\<not> idSeen ids (getProp j ''id'')"
  shows "processLine parse line ids = (False, [], ids)
     \<and> processLine parse line' (snd (snd (processLine parse line ids)))
         = (False, [OnChunk (chunkOfDelta d')], recordId ids (getProp j ''id''))"
proof -
  have 1: "processLine parse line ids = (False, [], ids)"
    using assms(1,2) channelsEmpty_noData [of j]
    by (auto simp: processLine_decode split: option.splits)
  have "j' \<noteq> JNull" using assms(5) by (auto simp: deltaOf_def)
  then have 2: "processLine parse line' ids
      = (False, [OnChunk (chunkOfDelta d')], recordId ids (getProp j ''id''))"
    using assms(3-7) by (simp add: processLine_decode)
  show ?thesis using 1 2 by simp
qed

theorem C10_witness:
  \<open>processLine parseJSON ''data: {"id":"7","choices":[{"delta":{"content":"","reasoning":""}}]}'' []
      = (False, [], [])
   \<and> processLine parseJSON ''data: {"id":"7","choices":[{"delta":{"content":"late"}}]}''
        (snd (snd (processLine parseJSON ''data: {"id":"7","choices":[{"delta":{"content":"","reasoning":""}}]}'' [])))
      = (False, [OnChunk (contentOnly ''late'')], [JString ''7''])\<close>
proof -
  let ?j = \<open>JObject [(''id'', JString ''7''), (''choices'', JArray [JObject [(''delta'',
      JObject [(''content'', JString ''''), (''reasoning'', JString '''')])]])]\<close>
  let ?d' = \<open>JObject [(''content'', JString ''late'')]\<close>
  let ?j' = \<open>JObject [(''id'', JString ''7''), (''choices'', JArray [JObject [(''delta'', ?d')]])]\<close>
  have h1: \<open>decode parseJSON ''data: {"id":"7","choices":[{"delta":{"content":"","reasoning":""}}]}'' = Some ?j\<close>
    by code_simp
  have h2: "channelsEmpty ?j"
    by (simp add: channelsEmpty_def deltaOf_def absentOrEmpty_def)
  have h3: \<open>decode parseJSON ''data: {"id":"7","choices":[{"delta":{"content":"late"}}]}'' = Some ?j'\<close>
    by code_simp
  have h4: "getProp ?j' ''id'' = getProp ?j ''id''" by simp
  have h5: "deltaOf ?j' = Some ?d'" by (simp add: deltaOf_def)
  have h6: "hasData (chunkOfDelta ?d')"
    by (simp add: hasData_def chunkOfDelta_def hasText_def hasTools_def nonEmptyString_def nonEmptyTools_def)
  have h7: "\<not> idSeen [] (getProp ?j ''id'')" by (simp add: idSeen_def setHas_def)
  have c: "chunkOfDelta ?d' = contentOnly ''late''"
    by (simp add: chunkOfDelta_def contentOnly_def nonEmptyString_def nonEmptyTools_def)
  have r: "recordId [] (getProp ?j ''id'') = [JString ''7'']"
    by (simp add: recordId_def setAdd_def setHas_def)
  show ?thesis
    using C10_id_recorded_only_with_data [OF h1 h2 h3 h4 h5 h6 h7] unfolding c r .
qed

section \<open>De-duplication\<close>

lemma feedLine_skip:
  "decode parse d = Some j \<Longrightarrow> idSeen (fst st) (getProp j ''id'') \<Longrightarrow> feedLine parse st d = st"
  by (cases st) (simp add: feedLine_def deliverRead_def processLine_decode)

lemma processLine_ids_mono: "set ids \<subseteq> set (snd (snd (processLine parse l ids)))"
  by (auto simp: processLine_def Let_def recordId_def setAdd_def
      split: option.splits json.splits if_splits)

lemma feedLine_has_mono: "setHas (fst st) v \<Longrightarrow> setHas (fst (feedLine parse st l)) v"
  using processLine_ids_mono [of "fst st" parse l]
  by (auto simp: feedLine_def setHas_def split: prod.splits)

lemma feedLines_has_mono: "setHas (fst st) v \<Longrightarrow> setHas (fst (foldl (feedLine parse) st ls)) v"
  by (induction ls arbitrary: st) (auto simp: feedLine_has_mono)

text \<open>A frame with a string id that is not empty either changes no state at all (it
  carries no data), or its id is in the set behind it.\<close>

lemma feedLine_once:
  assumes "decode parse d = Some j" and "getProp j ''id'' = Some (JString s)" and "s \<noteq> []"
  shows "(\<forall>st. feedLine parse st d = st) \<or> (\<forall>st. setHas (fst (feedLine parse st d)) (JString s))"
proof (cases "case deltaOf j of None \<Rightarrow> True | Some dl \<Rightarrow> \<not> hasData (chunkOfDelta dl)")
  case True
  then have "\<forall>st. feedLine parse st d = st"
    using assms(1) by (auto simp: feedLine_def deliverRead_def processLine_decode split: option.splits prod.splits)
  then show ?thesis by simp
next
  case False
  have "setHas (fst (feedLine parse st d)) (JString s)" for st
    using False assms
    by (auto simp: feedLine_def processLine_decode idSeen_def recordId_def setAdd_def setHas_def
        split: option.splits prod.splits)
  then show ?thesis by simp
qed

text \<open>
  C7, as stated: feeding the same delta twice gives the transcript of feeding it
  once, for every delta that carries an id. The id is tested for truth before it is
  looked up and before it is recorded, so the empty string is never recorded: the
  frame below carries it as its id, and fed twice it gives the text \<^verbatim>\<open>xx\<close>, fed once
  \<^verbatim>\<open>x\<close>.
\<close>

theorem C7_counterexample:
  \<open>Option.bind (decode parseJSON ''data: {"id":"","choices":[{"delta":{"content":"x"}}]}'')
       (\<lambda>j. getProp j ''id'') = Some (JString [])
   \<and> blocks (snd (foldl (feedLine parseJSON) ([], newTurn)
        [''data: {"id":"","choices":[{"delta":{"content":"x"}}]}'',
         ''data: {"id":"","choices":[{"delta":{"content":"x"}}]}''])) = [Content ''xx'']
   \<and> blocks (snd (foldl (feedLine parseJSON) ([], newTurn)
        [''data: {"id":"","choices":[{"delta":{"content":"x"}}]}''])) = [Content ''x'']\<close>
  by code_simp

text \<open>
  C7, amended: for every frame whose id is a string that is not empty, feeding the
  frame once more, right behind it or behind any lines in between, leaves the
  processed ids and the turn as they were without the repetition.
\<close>

theorem C7_dedup_idempotent_for_nonempty_id:
  assumes "decode parse d = Some j" and "getProp j ''id'' = Some (JString s)" and "s \<noteq> []"
  shows "foldl (feedLine parse) st (d # xs @ [d]) = foldl (feedLine parse) st (d # xs)"
proof -
  let ?st = "foldl (feedLine parse) st (d # xs)"
  have "feedLine parse ?st d = ?st"
    using feedLine_once [OF assms]
  proof
    assume "\<forall>st. feedLine parse st d = st"
    then show ?thesis by blast
  next
    assume "\<forall>st. setHas (fst (feedLine parse st d)) (JString s)"
    then have "setHas (fst (feedLine parse st d)) (JString s)" by blast
    then have "setHas (fst ?st) (JString s)"
      using feedLines_has_mono [of "feedLine parse st d" "JString s" parse xs] by simp
    then have "idSeen (fst ?st) (getProp j ''id'')"
      using assms(2,3) by (simp add: idSeen_def)
    then show ?thesis using feedLine_skip [OF assms(1)] by simp
  qed
  then show ?thesis by simp
qed

theorem C7_witness:
  \<open>foldl (feedLine parseJSON) ([], newTurn)
      [''data: {"id":"a","choices":[{"delta":{"content":"x"}}]}'',
       ''data: {"id":"b","choices":[{"delta":{"content":"y"}}]}'',
       ''data: {"id":"a","choices":[{"delta":{"content":"x"}}]}'']
    = ([JString ''a'', JString ''b''], \<lparr>blocks = [Content ''xy''], streaming = True, completions = 0\<rparr>)\<close>
proof -
  let ?j = \<open>JObject [(''id'', JString ''a''), (''choices'', JArray [JObject [(''delta'',
      JObject [(''content'', JString ''x'')])]])]\<close>
  have h1: \<open>decode parseJSON ''data: {"id":"a","choices":[{"delta":{"content":"x"}}]}'' = Some ?j\<close>
    by code_simp
  have h2: "getProp ?j ''id'' = Some (JString ''a'')" by simp
  have h3: "''a'' \<noteq> []" by simp
  have v: \<open>foldl (feedLine parseJSON) ([], newTurn)
      [''data: {"id":"a","choices":[{"delta":{"content":"x"}}]}'',
       ''data: {"id":"b","choices":[{"delta":{"content":"y"}}]}'']
    = ([JString ''a'', JString ''b''], \<lparr>blocks = [Content ''xy''], streaming = True, completions = 0\<rparr>)\<close>
    by code_simp
  show ?thesis
    using C7_dedup_idempotent_for_nonempty_id [OF h1 h2 h3, of "([], newTurn)"
        \<open>[''data: {"id":"b","choices":[{"delta":{"content":"y"}}]}'']\<close>] v
    by simp
qed

section \<open>Completion\<close>

text \<open>
  C1, at the failing inputs: the sentinel ends the loop over the buffer, not the loop
  over the reads. A second sentinel in a later read runs the completion callback a
  second time, and a data frame in a later read reaches \<^verbatim>\<open>onChunk\<close> behind the
  completion (the caller leaves the blocks as they are then, its reference to the
  streaming message being -1). A frame behind the sentinel in the same read is
  dropped with the buffer.
\<close>

theorem C1_reads_go_on_after_sentinel:
  \<open>askQuestionStream parseJSON [''data: [DONE]\<newline>'', ''data: [DONE]\<newline>'']
      = [OnComplete, OnComplete]
   \<and> completions (runTurn parseJSON [''data: [DONE]\<newline>'', ''data: [DONE]\<newline>'']) = 2
   \<and> askQuestionStream parseJSON
        [''data: [DONE]\<newline>data: {"id":"1","choices":[{"delta":{"content":"same read"}}]}\<newline>'',
         ''data: {"id":"2","choices":[{"delta":{"content":"later read"}}]}\<newline>'']
      = [OnComplete, OnChunk (contentOnly ''later read'')]
   \<and> runTurn parseJSON
        [''data: [DONE]\<newline>data: {"id":"1","choices":[{"delta":{"content":"same read"}}]}\<newline>'',
         ''data: {"id":"2","choices":[{"delta":{"content":"later read"}}]}\<newline>'']
      = \<lparr>blocks = [], streaming = False, completions = 1\<rparr>\<close>
  by code_simp

section \<open>Control tags\<close>

text \<open>
  C8, at the failing input: the fourth replacement of \<^verbatim>\<open>cleanedReasoning\<close>, which its
  comment calls the removal of the opening redacted tag, removes \<^verbatim>\<open><think>\<close> a second
  time, and no replacement removes \<^verbatim>\<open><redacted_reasoning>\<close>: the opening marker stays in
  the text of the Reasoning block, while the three other markers are removed.
\<close>

theorem C8_opening_redacted_tag_stays:
  "cleanReasoning ''<redacted_reasoning>plan</redacted_reasoning>'' = ''<redacted_reasoning>plan''
   \<and> updateBlocks [] (reasoningOnly ''<redacted_reasoning>plan</redacted_reasoning>'')
       = [Reasoning ''<redacted_reasoning>plan'']
   \<and> updateBlocks [] (reasoningOnly ''<think>plan</think>'') = [Reasoning ''plan'']"
  by code_simp

section \<open>Output spans\<close>

lemma occursIn_iff: "occursIn p s \<longleftrightarrow> (\<exists>b a. s = b @ p @ a)"
proof (induction s)
  case Nil
  then show ?case by auto
next
  case (Cons c cs)
  show ?case
  proof
    assume "occursIn p (c # cs)"
    then consider "startsWith (c # cs) p" | "occursIn p cs" by (auto split: if_splits)
    then show "\<exists>b a. c # cs = b @ p @ a"
    proof cases
      case 1
      then have "c # cs = [] @ p @ drop (length p) (c # cs)"
        by (metis append_Nil append_take_drop_id startsWith_def)
      then show ?thesis by blast
    next
      case 2
      then obtain b a where "cs = b @ p @ a" using Cons by blast
      then have "c # cs = (c # b) @ p @ a" by simp
      then show ?thesis by blast
    qed
  next
    assume "\<exists>b a. c # cs = b @ p @ a"
    then obtain b a where e: "c # cs = b @ p @ a" by blast
    show "occursIn p (c # cs)"
    proof (cases b)
      case Nil
      then have "startsWith (c # cs) p" using e by (simp add: startsWith_def)
      then show ?thesis by simp
    next
      case (Cons x b')
      then have "cs = b' @ p @ a" using e by simp
      then show ?thesis using Cons.IH by auto
    qed
  qed
qed

lemma findSub_None: "findSub p s = None \<longleftrightarrow> \<not> occursIn p s"
  by (induction s) (auto split: option.splits)

lemma findSub_Some: "findSub p s = Some (b, a) \<Longrightarrow> s = b @ p @ a"
proof (induction s arbitrary: b)
  case Nil
  then show ?case by (simp split: if_splits)
next
  case (Cons c cs)
  show ?case
  proof (cases "startsWith (c # cs) p")
    case True
    then have "b = []" "a = drop (length p) (c # cs)" using Cons.prems by auto
    then show ?thesis using True by (metis append_Nil append_take_drop_id startsWith_def)
  next
    case False
    then obtain b' where "findSub p cs = Some (b', a)" "b = c # b'"
      using Cons.prems by (auto split: option.splits)
    then show ?thesis using Cons.IH by simp
  qed
qed

lemma findSub_here: "p \<noteq> [] \<Longrightarrow> findSub p (p @ x) = Some ([], x)"
  by (cases p) (auto simp: startsWith_def)

lemma startsWith_append: "startsWith s (p @ q) \<Longrightarrow> startsWith s p"
  by (metis append_eq_conv_conj length_append startsWith_def take_add take_all_iff
      append_take_drop_id take_take min.absorb1 le_add1)

text \<open>A tag has its first character nowhere else, so it cannot begin in the text before
  an occurrence of itself and end inside that occurrence.\<close>

lemma no_straddle:
  assumes "pre \<noteq> []" and "p \<noteq> []" and "hd p \<notin> set (tl p)" and "\<not> startsWith pre p"
  shows "\<not> startsWith (pre @ p @ y) p"
proof
  assume s: "startsWith (pre @ p @ y) p"
  then have t: "take (length p) (pre @ p @ y) = p" by (simp add: startsWith_def)
  show False
  proof (cases "length p \<le> length pre")
    case True
    then have "take (length p) pre = p" using t by simp
    then show False using assms(4) by (simp add: startsWith_def)
  next
    case False
    then have l: "length pre < length p" by simp
    have "p ! length pre = (pre @ p @ y) ! length pre"
      using t l by (metis nth_take)
    also have "\<dots> = hd p" using assms(2) by (simp add: nth_append hd_conv_nth)
    finally have "p ! length pre = hd p" .
    moreover have "p ! length pre \<in> set (tl p)"
    proof -
      obtain n where n: "length pre = Suc n" using assms(1) by (cases pre) auto
      have "p ! Suc n = tl p ! n" using assms(2) by (cases p) auto
      moreover have "n < length (tl p)" using l n by simp
      ultimately show ?thesis using n by (metis nth_mem)
    qed
    ultimately show False using assms(3) by simp
  qed
qed

lemma findSub_first:
  "p \<noteq> [] \<Longrightarrow> hd p \<notin> set (tl p) \<Longrightarrow> \<not> occursIn p pre \<Longrightarrow>
   findSub (p @ q) (pre @ (p @ q) @ x) = Some (pre, x)"
proof (induction pre)
  case Nil
  then show ?case using findSub_here [of "p @ q" x] by simp
next
  case (Cons a pre)
  have 1: "\<not> startsWith (a # pre) p" and 2: "\<not> occursIn p pre"
    using Cons.prems(3) by (auto split: if_splits)
  have "\<not> startsWith ((a # pre) @ p @ (q @ x)) p"
    using Cons.prems(1,2) 1 by (intro no_straddle) auto
  then have "\<not> startsWith ((a # pre) @ (p @ q) @ x) (p @ q)"
    using startsWith_append [of "(a # pre) @ (p @ q) @ x" p q] by auto
  then show ?case using Cons.IH [OF Cons.prems(1,2) 2] by simp
qed

lemma findSub_open:
  "\<not> occursIn ''<output>'' pre \<Longrightarrow> findSub ''<output>'' (pre @ ''<output>'' @ x) = Some (pre, x)"
  using findSub_first [of "''<output>''" pre "[]" x] by simp

lemma findSub_close:
  "\<not> occursIn ''</output>'' inner \<Longrightarrow> findSub ''</output>'' (inner @ ''</output>'' @ x) = Some (inner, x)"
  using findSub_first [of "''</output>''" inner "[]" x] by simp

lemma findSub_match:
  "\<not> occursIn ''<output>'' pre \<Longrightarrow>
   findSub (''<output>'' @ inner @ ''</output>'') (pre @ (''<output>'' @ inner @ ''</output>'') @ post)
     = Some (pre, post)"
  using findSub_first [of "''<output>''" pre "inner @ ''</output>''" post] by simp

lemma outputMatches_first:
  assumes "\<not> occursIn ''<output>'' pre" and "\<not> occursIn ''</output>'' inner"
  shows "outputMatches (pre @ ''<output>'' @ inner @ ''</output>'' @ post)
       = (''<output>'' @ inner @ ''</output>'') # outputMatches post"
proof -
  have 1: "findSub ''<output>'' (pre @ ''<output>'' @ inner @ ''</output>'' @ post)
      = Some (pre, inner @ ''</output>'' @ post)"
    using assms(1) by (rule findSub_open)
  have 2: "findSub ''</output>'' (inner @ ''</output>'' @ post) = Some (inner, post)"
    using assms(2) by (rule findSub_close)
  show ?thesis
    by (subst outputMatches.simps) (simp only: 1 2 option.case prod.case)
qed

lemma outputGroup_match:
  assumes "\<not> occursIn ''</output>'' inner"
  shows "outputGroup (''<output>'' @ inner @ ''</output>'') = Some inner"
proof -
  have 1: "findSub ''<output>'' (''<output>'' @ inner @ ''</output>'') = Some ([], inner @ ''</output>'')"
    by (intro findSub_here) simp
  have "findSub ''</output>'' (inner @ ''</output>'' @ []) = Some (inner, [])"
    using assms by (rule findSub_close)
  then have 3: "findSub ''</output>'' (inner @ ''</output>'') = Some (inner, [])"
    by (simp only: append_Nil2)
  show ?thesis
    unfolding outputGroup_def by (simp only: 1 3 option.case prod.case)
qed

lemma removeFirst_match:
  assumes "\<not> occursIn ''<output>'' pre"
  shows "removeFirst (''<output>'' @ inner @ ''</output>'') (pre @ ''<output>'' @ inner @ ''</output>'' @ post)
       = pre @ post"
proof -
  have "findSub (''<output>'' @ inner @ ''</output>'') (pre @ (''<output>'' @ inner @ ''</output>'') @ post)
      = Some (pre, post)"
    using assms by (rule findSub_match)
  then have "findSub (''<output>'' @ inner @ ''</output>'') (pre @ ''<output>'' @ inner @ ''</output>'' @ post)
      = Some (pre, post)"
    by (simp only: append_assoc)
  then show ?thesis
    unfolding removeFirst_def by (simp only: option.case prod.case)
qed

lemma occursIn_suffix: "occursIn q a \<Longrightarrow> occursIn q (b @ a)"
  by (metis append.assoc occursIn_iff)

lemma outputMatches_none:
  assumes "\<not> (occursIn ''<output>'' s \<and> occursIn ''</output>'' s)"
  shows "outputMatches s = []"
proof (cases "findSub ''<output>'' s")
  case None
  then show ?thesis by (subst outputMatches.simps) simp
next
  case (Some x)
  obtain b rest where x: "x = (b, rest)" by (cases x)
  then have s: "s = b @ ''<output>'' @ rest" using Some findSub_Some by blast
  have "occursIn ''<output>'' s" using Some findSub_None [of "''<output>''" s] by auto
  then have "\<not> occursIn ''</output>'' s" using assms by simp
  then have "\<not> occursIn ''</output>'' rest"
    using s occursIn_suffix [of "''</output>''" rest "b @ ''<output>''"] by auto
  then have "findSub ''</output>'' rest = None" by (simp add: findSub_None)
  then show ?thesis using Some x by (subst outputMatches.simps) simp
qed

lemma cleanReasoning_Nil: "cleanReasoning [] = []"
  by (simp add: cleanReasoning_def)

text \<open>
  C3, as stated: the tag pair of an output span is matched whatever the case of its
  letters. The expression has the flags \<^verbatim>\<open>g\<close> and \<^verbatim>\<open>s\<close> only, so a span in uppercase
  tags is no match: no Tool block is made and the span stays in the reasoning text.
\<close>

theorem C3_counterexample:
  "updateBlocks [] (reasoningOnly ''<OUTPUT>Result A</OUTPUT>'') = [Reasoning ''<OUTPUT>Result A</OUTPUT>'']"
  by code_simp

text \<open>
  C3, amended: the tag pair is matched in lowercase only, and line breaks inside the
  span do not matter.

  First, for every fragment whose text behind the removal of the control tags is a
  text, \<^verbatim>\<open><output>\<close>, an inner text, \<^verbatim>\<open></output>\<close> and a text, with no \<^verbatim>\<open><output>\<close> in
  the text before and no \<^verbatim>\<open></output>\<close> in the inner text (which is arbitrary
  otherwise: line breaks, \<^verbatim>\<open><\<close>, tags in another case): this span is the first
  match, and the further matches are those of the text behind it; the span is cut out
  of the reasoning text, and the further matches are removed from what is left, each
  at the first occurrence of its text; the trimmed inner text, when it is not empty
  and no output block has it yet, is pushed as a synthetic Tool block; and when the
  text behind holds no further span, the chunk gives this Tool block and then, when
  the trimmed rest is not empty, a Reasoning block with the repaired rest.

  Second, for every fragment whose text behind the removal of the control tags does
  not hold both lowercase tags, as it is with a fragment whose only span has its
  tags in another case, there is no match: no Tool block is made and the whole text
  goes to the Reasoning block.
\<close>

theorem C3_lowercase_tag_pair_only:
  "(cleanReasoning r = pre @ ''<output>'' @ inner @ ''</output>'' @ post
      \<and> \<not> occursIn ''<output>'' pre \<and> \<not> occursIn ''</output>'' inner \<longrightarrow>
    outputMatches (cleanReasoning r) = (''<output>'' @ inner @ ''</output>'') # outputMatches post
    \<and> reasoningWithoutOutput (cleanReasoning r)
        = trim (foldl (\<lambda>text m. removeFirst m text) (pre @ post) (outputMatches post))
    \<and> (trim inner \<noteq> [] \<and> filter (isOutputBlock (trim inner)) bs = [] \<longrightarrow>
         pushOutput (bs, ch) (''<output>'' @ inner @ ''</output>'')
           = (bs @ [Tool (outputTool (trim inner))], True)
         \<and> (outputMatches post = [] \<longrightarrow>
              updateBlocks bs (reasoningOnly r)
                = bs @ [Tool (outputTool (trim inner))]
                     @ (if trim (pre @ post) = [] then []
                        else [Reasoning (addSpaceBetweenWords (trim (pre @ post)))]))))
   \<and> (\<not> (occursIn ''<output>'' (cleanReasoning q) \<and> occursIn ''</output>'' (cleanReasoning q)) \<longrightarrow>
        outputMatches (cleanReasoning q) = []
        \<and> updateBlocks cs (reasoningOnly q)
            = (if cleanReasoning q = [] then cs else appendReasoning cs (cleanReasoning q)))"
proof (intro conjI impI)
  assume a: "cleanReasoning r = pre @ ''<output>'' @ inner @ ''</output>'' @ post
      \<and> \<not> occursIn ''<output>'' pre \<and> \<not> occursIn ''</output>'' inner"
  show "outputMatches (cleanReasoning r) = (''<output>'' @ inner @ ''</output>'') # outputMatches post"
    using a outputMatches_first [of pre inner post] by simp
next
  assume a: "cleanReasoning r = pre @ ''<output>'' @ inner @ ''</output>'' @ post
      \<and> \<not> occursIn ''<output>'' pre \<and> \<not> occursIn ''</output>'' inner"
  define m where "m = ''<output>'' @ inner @ ''</output>''"
  define c where "c = cleanReasoning r"
  have c: "c = pre @ ''<output>'' @ inner @ ''</output>'' @ post" using a by (simp add: c_def)
  have ms: "outputMatches c = m # outputMatches post"
    unfolding c m_def using a outputMatches_first [of pre inner post] by simp
  have rf: "removeFirst m c = pre @ post"
    unfolding c m_def using a by (intro removeFirst_match) simp
  have "reasoningWithoutOutput c
      = trim (foldl (\<lambda>text m. removeFirst m text) (pre @ post) (outputMatches post))"
    by (simp add: reasoningWithoutOutput_def ms rf)
  then show "reasoningWithoutOutput (cleanReasoning r)
      = trim (foldl (\<lambda>text m. removeFirst m text) (pre @ post) (outputMatches post))"
    by (simp add: c_def)
next
  assume a: "cleanReasoning r = pre @ ''<output>'' @ inner @ ''</output>'' @ post
      \<and> \<not> occursIn ''<output>'' pre \<and> \<not> occursIn ''</output>'' inner"
    and e: "trim inner \<noteq> [] \<and> filter (isOutputBlock (trim inner)) bs = []"
  define m where "m = ''<output>'' @ inner @ ''</output>''"
  have g: "outputGroup m = Some inner"
    unfolding m_def using a by (intro outputGroup_match) simp
  have "pushOutput (bs, ch) m = (bs @ [Tool (outputTool (trim inner))], True)"
    using e by (simp add: pushOutput_def g)
  then show "pushOutput (bs, ch) (''<output>'' @ inner @ ''</output>'')
      = (bs @ [Tool (outputTool (trim inner))], True)"
    by (simp add: m_def)
next
  assume a: "cleanReasoning r = pre @ ''<output>'' @ inner @ ''</output>'' @ post
      \<and> \<not> occursIn ''<output>'' pre \<and> \<not> occursIn ''</output>'' inner"
    and e: "trim inner \<noteq> [] \<and> filter (isOutputBlock (trim inner)) bs = []"
    and n: "outputMatches post = []"
  define m where "m = ''<output>'' @ inner @ ''</output>''"
  define c where "c = cleanReasoning r"
  have c: "c = pre @ ''<output>'' @ inner @ ''</output>'' @ post" using a by (simp add: c_def)
  have ms: "outputMatches c = [m]"
    unfolding c m_def using a n outputMatches_first [of pre inner post] by simp
  have g: "outputGroup m = Some inner"
    unfolding m_def using a by (intro outputGroup_match) simp
  have rf: "removeFirst m c = pre @ post"
    unfolding c m_def using a by (intro removeFirst_match) simp
  have f: "reasoningWithoutOutput c = trim (pre @ post)"
    by (simp add: reasoningWithoutOutput_def ms rf)
  have p: "foldl pushOutput (bs, False) (outputMatches c) = (bs @ [Tool (outputTool (trim inner))], True)"
    using e by (simp add: ms pushOutput_def g)
  have "c \<noteq> []" by (simp add: c)
  then have r: "r \<noteq> []" using cleanReasoning_Nil by (auto simp: c_def)
  have h: "handleReasoning (reasoningOnly r) (bs, False)
      = (if trim (pre @ post) = [] then (bs @ [Tool (outputTool (trim inner))], True)
         else (bs @ [Tool (outputTool (trim inner)), Reasoning (addSpaceBetweenWords (trim (pre @ post)))], True))"
    using r by (simp add: handleReasoning_def reasoningOnly_def c_def [symmetric] p f appendReasoning_def lastBlock_def)
  have ro: "executed_tools (reasoningOnly r) = None" "content (reasoningOnly r) = None"
    by (simp_all add: reasoningOnly_def)
  show "updateBlocks bs (reasoningOnly r)
       = bs @ [Tool (outputTool (trim inner))]
            @ (if trim (pre @ post) = [] then []
               else [Reasoning (addSpaceBetweenWords (trim (pre @ post)))])"
    by (simp add: updateBlocks_def h handleTools_def handleContent_def ro)
next
  assume b: "\<not> (occursIn ''<output>'' (cleanReasoning q) \<and> occursIn ''</output>'' (cleanReasoning q))"
  then show "outputMatches (cleanReasoning q) = []" by (rule outputMatches_none)
next
  assume b: "\<not> (occursIn ''<output>'' (cleanReasoning q) \<and> occursIn ''</output>'' (cleanReasoning q))"
  define c where "c = cleanReasoning q"
  have ms: "outputMatches c = []" unfolding c_def using b by (rule outputMatches_none)
  have f: "reasoningWithoutOutput c = c" by (simp add: reasoningWithoutOutput_def ms)
  have h: "handleReasoning (reasoningOnly q) (cs, False)
      = (if c = [] then (cs, False) else (appendReasoning cs c, True))"
  proof (cases "q = []")
    case True
    then have "c = []" by (simp add: c_def cleanReasoning_Nil)
    then show ?thesis using True by (simp add: handleReasoning_def reasoningOnly_def)
  next
    case False
    have "handleReasoning (reasoningOnly q) (cs, False)
        = (if reasoningWithoutOutput c = [] then foldl pushOutput (cs, False) (outputMatches c)
           else (appendReasoning (fst (foldl pushOutput (cs, False) (outputMatches c)))
                   (reasoningWithoutOutput c), True))"
      using False by (simp add: handleReasoning_def reasoningOnly_def c_def Let_def)
    then show ?thesis by (simp only: ms f foldl_Nil fst_conv)
  qed
  have ro: "executed_tools (reasoningOnly q) = None" "content (reasoningOnly q) = None"
    by (simp_all add: reasoningOnly_def)
  have "updateBlocks cs (reasoningOnly q) = (if c = [] then cs else appendReasoning cs c)"
    by (simp add: updateBlocks_def h handleTools_def handleContent_def ro)
  then show "updateBlocks cs (reasoningOnly q)
          = (if cleanReasoning q = [] then cs else appendReasoning cs (cleanReasoning q))"
    by (simp add: c_def)
qed

theorem C3_witness:
  "updateBlocks [Reasoning ''Plan'']
      (reasoningOnly ''See <think>it: <output>a < b\<newline>c</output> end </OUTPUT>'')
     = [Reasoning ''Plan'', Tool (outputTool ''a < b\<newline>c''),
        Reasoning ''See it:  end </OUTPUT>'']
   \<and> outputMatches (cleanReasoning ''<Output>A\<newline>B</Output>'') = []
   \<and> updateBlocks [Reasoning ''Plan''] (reasoningOnly ''<Output>A\<newline>B</Output>'')
     = [Reasoning ''Plan<Output>A\<newline>B</Output>'']"
proof -
  let ?r = "''See <think>it: <output>a < b\<newline>c</output> end </OUTPUT>''"
  let ?q = "''<Output>A\<newline>B</Output>''"
  note inst = C3_lowercase_tag_pair_only [of "?r" "''See it: ''" "''a < b\<newline>c''"
      "'' end </OUTPUT>''" "[Reasoning ''Plan'']" False "?q" "[Reasoning ''Plan'']"]
  have h1: "cleanReasoning ?r = ''See it: '' @ ''<output>'' @ ''a < b\<newline>c'' @ ''</output>'' @ '' end </OUTPUT>''
      \<and> \<not> occursIn ''<output>'' ''See it: '' \<and> \<not> occursIn ''</output>'' ''a < b\<newline>c''"
    by code_simp
  have h2: "trim ''a < b\<newline>c'' \<noteq> []
      \<and> filter (isOutputBlock (trim ''a < b\<newline>c'')) [Reasoning ''Plan''] = []"
    by code_simp
  have h3: "outputMatches '' end </OUTPUT>'' = []" by code_simp
  have t1: "trim ''a < b\<newline>c'' = ''a < b\<newline>c''" by code_simp
  have t2: "trim (''See it: '' @ '' end </OUTPUT>'') = ''See it:  end </OUTPUT>''"
    by code_simp
  have t3: "addSpaceBetweenWords ''See it:  end </OUTPUT>'' = ''See it:  end </OUTPUT>''"
    by code_simp
  have a: "updateBlocks [Reasoning ''Plan''] (reasoningOnly ?r)
      = [Reasoning ''Plan''] @ [Tool (outputTool (trim ''a < b\<newline>c''))]
          @ (if trim (''See it: '' @ '' end </OUTPUT>'') = [] then []
             else [Reasoning (addSpaceBetweenWords (trim (''See it: '' @ '' end </OUTPUT>'')))])"
    by (rule inst [THEN conjunct1, THEN mp, OF h1, THEN conjunct2, THEN conjunct2, THEN mp, OF h2,
          THEN conjunct2, THEN mp, OF h3])
  have h4: "\<not> (occursIn ''<output>'' (cleanReasoning ?q) \<and> occursIn ''</output>'' (cleanReasoning ?q))"
    by code_simp
  have c: "cleanReasoning ?q = ?q" by code_simp
  have b: "outputMatches (cleanReasoning ?q) = []
      \<and> updateBlocks [Reasoning ''Plan''] (reasoningOnly ?q)
          = (if cleanReasoning ?q = [] then [Reasoning ''Plan'']
             else appendReasoning [Reasoning ''Plan''] (cleanReasoning ?q))"
    by (rule inst [THEN conjunct2, THEN mp, OF h4])
  have ap: "appendReasoning [Reasoning ''Plan''] ?q = [Reasoning ''Plan<Output>A\<newline>B</Output>'']"
    by code_simp
  show ?thesis
    using a b unfolding t1 t2 t3 c ap by simp
qed

section \<open>Tool blocks and their indices\<close>

lemma toolIndices_append: "toolIndices (a @ b) = toolIndices a @ toolIndices b"
  by (simp add: toolIndices_def)

lemma toolIndices_snoc_text:
  "toolIndices (xs @ [Reasoning t]) = toolIndices xs" "toolIndices (xs @ [Content t]) = toolIndices xs"
  by (simp_all add: toolIndices_def)

lemma update_last: "bs \<noteq> [] \<Longrightarrow> bs[length bs - Suc 0 := v] = butlast bs @ [v]"
  by (induction bs rule: rev_induct) auto

lemma appendReasoning_indices: "toolIndices (appendReasoning bs f) = toolIndices bs"
proof (cases "lastBlock bs")
  case None
  then show ?thesis by (simp add: appendReasoning_def toolIndices_snoc_text)
next
  case (Some b)
  then have ne: "bs \<noteq> []" and l: "last bs = b" by (auto simp: lastBlock_def split: if_splits)
  then have bs: "bs = butlast bs @ [b]" using append_butlast_last_id [of bs] by simp
  show ?thesis
  proof (cases b)
    case (Reasoning t)
    have "toolIndices bs = toolIndices (butlast bs)"
      using bs Reasoning toolIndices_snoc_text(1) [of "butlast bs" t] by simp
    then show ?thesis
      using Some Reasoning ne by (simp add: appendReasoning_def Let_def update_last toolIndices_snoc_text)
  next
    case (Tool x)
    then show ?thesis using Some by (simp add: appendReasoning_def toolIndices_snoc_text)
  next
    case (Content x)
    then show ?thesis using Some by (simp add: appendReasoning_def toolIndices_snoc_text)
  qed
qed

lemma appendContent_indices: "toolIndices (appendContent bs c) = toolIndices bs"
proof (cases "lastBlock bs")
  case None
  then show ?thesis by (simp add: appendContent_def toolIndices_snoc_text)
next
  case (Some b)
  then have ne: "bs \<noteq> []" and l: "last bs = b" by (auto simp: lastBlock_def split: if_splits)
  then have bs: "bs = butlast bs @ [b]" using append_butlast_last_id [of bs] by simp
  show ?thesis
  proof (cases b)
    case (Content t)
    have "toolIndices bs = toolIndices (butlast bs)"
      using bs Content toolIndices_snoc_text(2) [of "butlast bs" t] by simp
    then show ?thesis
      using Some Content ne by (simp add: appendContent_def update_last toolIndices_snoc_text)
  next
    case (Tool x)
    then show ?thesis using Some by (simp add: appendContent_def toolIndices_snoc_text)
  next
    case (Reasoning x)
    then show ?thesis using Some by (simp add: appendContent_def toolIndices_snoc_text)
  qed
qed

lemma pushOutput_realIndices: "realIndices (fst (pushOutput st m)) = realIndices (fst st)"
  by (auto simp: pushOutput_def Let_def realIndices_def toolIndices_append toolIndices_def outputTool_def
      split: option.splits)

lemma pushOutputs_realIndices: "realIndices (fst (foldl pushOutput st ms)) = realIndices (fst st)"
  by (induction ms arbitrary: st) (simp_all add: pushOutput_realIndices)

lemma handleReasoning_realIndices: "realIndices (fst (handleReasoning chunk st)) = realIndices (fst st)"
  by (auto simp: handleReasoning_def Let_def pushOutputs_realIndices realIndices_def appendReasoning_indices
      split: option.splits)
     (metis pushOutputs_realIndices realIndices_def)

lemma handleContent_realIndices: "realIndices (fst (handleContent chunk st)) = realIndices (fst st)"
  by (auto simp: handleContent_def realIndices_def appendContent_indices split: option.splits)

lemma pushTools_distinct:
  "existing = set (toolIndices (fst st)) \<Longrightarrow> distinct (realIndices (fst st)) \<Longrightarrow>
   distinct (realIndices (fst (pushTools tools existing st)))"
proof (induction tools arbitrary: existing st)
  case Nil
  then show ?case by simp
next
  case (Cons tool tools)
  show ?case
  proof (cases "index tool \<in> existing")
    case True
    then show ?thesis using Cons by simp
  next
    case False
    let ?st = "(fst st @ [Tool tool], True)"
    have 1: "insert (index tool) existing = set (toolIndices (fst ?st))"
      using Cons.prems(1) by (simp add: toolIndices_append toolIndices_def)
    have 2: "distinct (realIndices (fst ?st))"
      using Cons.prems False by (auto simp: realIndices_def toolIndices_append toolIndices_def)
    show ?thesis using False Cons.IH [OF 1 2] by simp
  qed
qed

lemma handleTools_distinct:
  "distinct (realIndices (fst st)) \<Longrightarrow> distinct (realIndices (fst (handleTools chunk st)))"
  by (auto simp: handleTools_def pushTools_distinct split: option.splits)

lemma updateBlocks_distinct:
  assumes "distinct (realIndices bs)"
  shows "distinct (realIndices (updateBlocks bs chunk))"
proof -
  let ?st = "handleContent chunk (handleTools chunk (handleReasoning chunk (bs, False)))"
  have "distinct (realIndices (fst (handleReasoning chunk (bs, False))))"
    using assms by (simp add: handleReasoning_realIndices)
  then have "distinct (realIndices (fst ?st))"
    by (simp add: handleContent_realIndices handleTools_distinct)
  then show ?thesis using assms by (auto simp: updateBlocks_def split: prod.splits)
qed

lemma foldl_updateBlocks_distinct:
  "distinct (realIndices bs) \<Longrightarrow> distinct (realIndices (foldl updateBlocks bs chunks))"
  by (induction chunks arbitrary: bs) (simp_all add: updateBlocks_distinct)

text \<open>
  C2, as stated: over all Tool blocks of the transcript, the synthetic output blocks
  with the index -1 included, no index occurs twice. The synthetic blocks are told
  apart by their output text, not by their index: one fragment with two output
  spans gives two Tool blocks with the index -1.
\<close>

theorem C2_counterexample:
  "toolIndices (updateBlocks [] (reasoningOnly ''<output>A</output><output>B</output>'')) = [- 1, - 1]
   \<and> \<not> distinct (toolIndices (updateBlocks [] (reasoningOnly ''<output>A</output><output>B</output>'')))"
proof -
  have "updateBlocks [] (reasoningOnly ''<output>A</output><output>B</output>'')
      = [Tool (outputTool ''A''), Tool (outputTool ''B'')]"
    by code_simp
  then show ?thesis by (simp add: toolIndices_def outputTool_def)
qed

text \<open>
  C2, amended: for every sequence of chunks given to a fresh assembler, no index other
  than -1 occurs in two Tool blocks of the transcript; and a tool event whose index
  is the index of a Tool block of the transcript (a synthetic one included) is
  dropped.
\<close>

theorem C2_one_tool_block_per_real_index:
  "distinct (filter (\<lambda>i. i \<noteq> - 1) (toolIndices (foldl updateBlocks [] chunks)))
   \<and> (index tool \<in> set (toolIndices bs) \<longrightarrow> updateBlocks bs (toolsOnly [tool]) = bs)"
proof
  have "distinct (realIndices (foldl updateBlocks [] chunks))"
    by (rule foldl_updateBlocks_distinct) (simp add: realIndices_def toolIndices_def)
  then show "distinct (filter (\<lambda>i. i \<noteq> - 1) (toolIndices (foldl updateBlocks [] chunks)))"
    by (simp add: realIndices_def)
next
  show "index tool \<in> set (toolIndices bs) \<longrightarrow> updateBlocks bs (toolsOnly [tool]) = bs"
    by (simp add: updateBlocks_def toolsOnly_def handleReasoning_def handleTools_def handleContent_def)
qed

theorem C2_witness:
  "distinct (filter (\<lambda>i. i \<noteq> - 1) (toolIndices (foldl updateBlocks []
      [toolsOnly [searchTool 0, searchTool 1, searchTool 0], reasoningOnly ''<output>A</output>'',
       toolsOnly [searchTool 1, searchTool 2]])))
   \<and> updateBlocks [Tool (searchTool 0), Content ''x''] (toolsOnly [searchTool 0])
      = [Tool (searchTool 0), Content ''x'']"
proof -
  have h: "index (searchTool 0) \<in> set (toolIndices [Tool (searchTool 0), Content ''x''])"
    by (simp add: toolIndices_def)
  show ?thesis
    using C2_one_tool_block_per_real_index [of "[toolsOnly [searchTool 0, searchTool 1, searchTool 0],
      reasoningOnly ''<output>A</output>'', toolsOnly [searchTool 1, searchTool 2]]" "searchTool 0"
      "[Tool (searchTool 0), Content ''x'']"] h
    by simp
qed

end
